theory Spec2Isabelle
  imports Complex_Main "HOL-Library.Word"
begin

section \<open>The raster buffer and the background classifier\<close>

text \<open>
  The raster is a Node \<open>Buffer\<close> of bytes, \<open>channels\<close> bytes per pixel, row-major. A read
  beyond the end of the buffer yields \<open>undefined\<close> in the source; every arithmetic
  expression over \<open>undefined\<close> is \<open>NaN\<close> and every comparison with \<open>NaN\<close> is false.
  \<open>pixelAt\<close> returns the three colour bytes of a pixel as numbers, or \<open>None\<close> when one of
  the three reads is \<open>undefined\<close>.
\<close>

type_synonym byte = "8 word"

definition pixelAt :: "byte list \<Rightarrow> nat \<Rightarrow> int \<Rightarrow> (int \<times> int \<times> int) option" where
  "pixelAt data channels idx =
     (let pi = idx * int channels in
      if 0 \<le> pi \<and> pi + 2 < int (length data)
      then Some (uint (data ! nat pi), uint (data ! nat (pi + 1)), uint (data ! nat (pi + 2)))
      else None)"

text \<open>
  \<open>isGreyPixel\<close> of the source. The brightness is a quotient of doubles; for byte
  arguments the sum is an integer of at most 765, the division is correctly rounded, and
  rounding is monotone and leaves 185 fixed, so the comparison with 185 has the value it
  has on the exact quotient, which is what the model computes.
\<close>

definition isGreyPixel :: "int \<Rightarrow> int \<Rightarrow> int \<Rightarrow> bool" where
  "isGreyPixel r g b =
     (let maxDiff = max (max \<bar>r - g\<bar> \<bar>g - b\<bar>) \<bar>r - b\<bar>;
          brightness = (of_int (r + g + b) :: real) / 3
      in maxDiff < 50 \<and> brightness \<le> 185)"

text \<open>The classifier as the flood fill applies it to pixel \<open>idx\<close> of the buffer.\<close>

definition greyAt :: "byte list \<Rightarrow> nat \<Rightarrow> int \<Rightarrow> bool" where
  "greyAt data channels idx =
     (case pixelAt data channels idx of
        None \<Rightarrow> False
      | Some (r, g, b) \<Rightarrow> isGreyPixel r g b)"

section \<open>Pixel indices and the four neighbours\<close>

text \<open>
  A pixel is addressed by its linear index \<open>y * width + x\<close>, a JavaScript number; the
  model uses \<open>int\<close> for indices and coordinates, since the seeds of the flood fill and the
  window offsets of the later stages can be negative. The flag arrays of the source
  (\<open>visited\<close>, \<open>isBackground\<close>) are typed arrays of \<open>width * height\<close> entries holding 0
  or 1, and every access to them is guarded to lie within \<open>0 .. width * height - 1\<close>; a
  flag array is modelled by the set of the indices that hold 1.

  Both traversals push the neighbours of a pixel with the same four guarded statements:
  left, right, up, down.
\<close>

definition pushNeighbors :: "nat \<Rightarrow> nat \<Rightarrow> int \<Rightarrow> int list" where
  "pushNeighbors width height idx =
     (let x = idx mod int width; y = idx div int width in
      (if x > 0 then [idx - 1] else []) @
      (if x < int width - 1 then [idx + 1] else []) @
      (if y > 0 then [idx - int width] else []) @
      (if y < int height - 1 then [idx + int width] else []))"

section \<open>Stage 2: the flood fill from the border\<close>

text \<open>The seeds in the order the source pushes them: top and bottom row, then the columns.\<close>

definition edgeSeeds :: "nat \<Rightarrow> nat \<Rightarrow> int list" where
  "edgeSeeds width height =
     concat (map (\<lambda>x. [int x, (int height - 1) * int width + int x]) [0..<width]) @
     concat (map (\<lambda>y. [int y * int width, int y * int width + (int width - 1)])
               [1..<height - 1])"

lemma card_unvisited_less:
  assumes "0 \<le> idx" "idx < n" "idx \<notin> visited"
  shows "card ({0..<n} - insert idx visited) < card ({0..<n} - (visited :: int set))"
proof -
  have "idx \<in> {0..<n} - visited" using assms by simp
  then have "card ({0..<n} - visited - {idx}) < card ({0..<n} - visited)"
    by (intro card_Diff1_less) simp_all
  moreover have "{0..<n} - visited - {idx} = {0..<n} - insert idx visited" by blast
  ultimately show ?thesis by simp
qed

text \<open>
  The loop \<open>while (queue.length > 0)\<close>: \<open>shift\<close> takes the head of the queue, \<open>push\<close>
  appends at its end.
\<close>

function floodLoop ::
  "byte list \<Rightarrow> nat \<Rightarrow> nat \<Rightarrow> nat \<Rightarrow> int list \<Rightarrow> int set \<Rightarrow> int set \<Rightarrow> int set" where
  "floodLoop data width height channels [] visited isBackground = isBackground"
| "floodLoop data width height channels (idx # queue) visited isBackground =
     (if idx < 0 \<or> idx \<ge> int (width * height) \<or> idx \<in> visited
      then floodLoop data width height channels queue visited isBackground
      else if \<not> greyAt data channels idx
      then floodLoop data width height channels queue (insert idx visited) isBackground
      else floodLoop data width height channels (queue @ pushNeighbors width height idx)
             (insert idx visited) (insert idx isBackground))"
  by pat_completeness auto
termination
proof (relation "measures
        [\<lambda>(data, width, height, channels, queue, visited, isBackground).
            card ({0..<int (width * height)} - visited),
         \<lambda>(data, width, height, channels, queue, visited, isBackground). length queue]",
       goal_cases)
  case 1
  show ?case by simp
next
  case (2 data width height channels idx queue visited isBackground)
  show ?case by simp
next
  case (3 data width height channels idx queue visited isBackground)
  then show ?case
    using card_unvisited_less [of idx "int (width * height)" visited]
    by (simp del: card_Diff_insert)
next
  case (4 data width height channels idx queue visited isBackground)
  then show ?case
    using card_unvisited_less [of idx "int (width * height)" visited]
    by (simp del: card_Diff_insert)
qed

definition floodFillBackground :: "byte list \<Rightarrow> nat \<Rightarrow> nat \<Rightarrow> nat \<Rightarrow> int set" where
  "floodFillBackground data width height channels =
     floodLoop data width height channels (edgeSeeds width height) {} {}"

section \<open>Stage 3: the density-based shadow cleanup\<close>

text \<open>The constants of \<open>densityShadowCleanup\<close>.\<close>

definition shadowRadius :: int where
  "shadowRadius = 12"

definition transparencyThreshold :: real where
  "transparencyThreshold = 45 / 100"

definition brightnessMax :: real where
  "brightnessMax = 160"

definition passes :: nat where
  "passes = 5"

text \<open>
  The values of \<open>for (let d = -radius; d <= radius; d += 2)\<close>, in order.
\<close>

definition evenOffsets :: "int \<Rightarrow> int list" where
  "evenOffsets radius = map (\<lambda>k. - radius + 2 * int k) [0..<nat (radius + 1)]"

text \<open>
  The two inner loops over \<open>dy\<close> and \<open>dx\<close>: the counters \<open>transparent\<close> and \<open>total\<close> of
  the sample around the pixel \<open>(x, y)\<close>.
\<close>

definition sampleCounts :: "int set \<Rightarrow> nat \<Rightarrow> int \<Rightarrow> int \<Rightarrow> int \<Rightarrow> nat \<times> nat" where
  "sampleCounts isBackground width radius x y =
     fold (\<lambda>dy. fold (\<lambda>dx (transparent, total).
             if dx * dx + dy * dy > radius * radius then (transparent, total)
             else let nidx = (y + dy) * int width + (x + dx) in
               (if nidx \<in> isBackground then transparent + 1 else transparent, total + 1))
           (evenOffsets radius))
       (evenOffsets radius) (0, 0)"

text \<open>
  The test \<open>brightness > brightnessMax\<close>. On a pixel read beyond the buffer the brightness
  is \<open>NaN\<close> and the test is false. For byte values the quotient of doubles compares with 160
  as the exact quotient does.
\<close>

definition tooBright :: "byte list \<Rightarrow> nat \<Rightarrow> int \<Rightarrow> bool" where
  "tooBright data channels idx =
     (case pixelAt data channels idx of
        None \<Rightarrow> False
      | Some (r, g, b) \<Rightarrow> (of_int (r + g + b) :: real) / 3 > brightnessMax)"

text \<open>
  The scan of one pass: the list \<open>toRemove\<close> after the loops over \<open>y\<close> and \<open>x\<close>. The scan
  reads \<open>isBackground\<close> and writes only \<open>toRemove\<close>. The quotient \<open>transparent / total\<close> is
  a quotient of doubles compared with the double nearest to 0.45; \<open>total\<close> is at most 169, so
  the exact quotient either equals 9/20, where both sides round to the same double, or
  differs from it by at least 1/3380, far more than the rounding error; the model compares
  the exact quotient with 45/100.
\<close>

definition shadowScan :: "byte list \<Rightarrow> int set \<Rightarrow> nat \<Rightarrow> nat \<Rightarrow> nat \<Rightarrow> int list" where
  "shadowScan data isBackground width height channels =
     fold (\<lambda>y. fold (\<lambda>x toRemove.
             let idx = y * int width + x in
             if idx \<in> isBackground then toRemove
             else if tooBright data channels idx then toRemove
             else let (transparent, total) = sampleCounts isBackground width shadowRadius x y in
               if real transparent / real total > transparencyThreshold
               then toRemove @ [idx] else toRemove)
           [shadowRadius..int width - shadowRadius - 1])
       [shadowRadius..int height - shadowRadius - 1] []"

text \<open>
  The loop over \<open>pass\<close>: a pass that queues nothing ends the loop; otherwise the queued
  pixels are written to the mask and counted.
\<close>

function shadowPasses ::
  "byte list \<Rightarrow> nat \<Rightarrow> nat \<Rightarrow> nat \<Rightarrow> nat \<Rightarrow> int set \<Rightarrow> nat \<Rightarrow> int set \<times> nat" where
  "shadowPasses data width height channels pass isBackground totalCleaned =
     (if pass < passes then
        (let toRemove = shadowScan data isBackground width height channels in
         if toRemove = [] then (isBackground, totalCleaned)
         else shadowPasses data width height channels (pass + 1)
                (fold insert toRemove isBackground) (totalCleaned + length toRemove))
      else (isBackground, totalCleaned))"
  by pat_completeness auto
termination
  by (relation "measure (\<lambda>(data, width, height, channels, pass, isBackground, totalCleaned).
                  passes - pass)") simp_all

declare shadowPasses.simps [simp del]

definition densityShadowCleanup ::
  "byte list \<Rightarrow> int set \<Rightarrow> nat \<Rightarrow> nat \<Rightarrow> nat \<Rightarrow> int set \<times> nat" where
  "densityShadowCleanup data isBackground width height channels =
     shadowPasses data width height channels 0 isBackground 0"

section \<open>Stage 4: the largest foreground blob\<close>

lemma card_unlabelled_less:
  fixes idx n :: int
  assumes "0 \<le> idx" "idx < n" "idx \<notin> isBackground" "\<not> 0 \<le> blobId idx" "0 \<le> c"
  shows "card {i \<in> {0..<n}. i \<notin> isBackground \<and> \<not> 0 \<le> (blobId(idx := c)) i}
           < card {i \<in> {0..<n}. i \<notin> isBackground \<and> \<not> 0 \<le> (blobId i :: int)}"
proof -
  let ?A = "{i \<in> {0..<n}. i \<notin> isBackground \<and> \<not> 0 \<le> (blobId(idx := c)) i}"
  let ?B = "{i \<in> {0..<n}. i \<notin> isBackground \<and> \<not> 0 \<le> blobId i}"
  have fin: "finite ?B"
    by (rule finite_subset [of _ "{0..<n}"]) (simp_all add: subset_iff)
  have a: "idx \<in> ?B" using assms by simp
  have b: "idx \<notin> ?A" using assms by simp
  have sub: "?A \<subseteq> ?B"
  proof
    fix i
    assume "i \<in> ?A"
    then show "i \<in> ?B" using assms(5) by (cases "i = idx") simp_all
  qed
  have "?A \<noteq> ?B"
  proof
    assume "?A = ?B"
    with a have "idx \<in> ?A" by (simp only:)
    with b show False ..
  qed
  with sub have "?A \<subset> ?B" by (rule psubsetI)
  with fin show ?thesis by (rule psubset_card_mono)
qed

text \<open>
  The inner loop \<open>while (queue.length > 0)\<close> of one blob: \<open>pop\<close> takes the last element
  and \<open>push\<close> appends, so the head of the model's list is the end of the source's array. The
  label array \<open>blobId\<close> is an \<open>Int32Array\<close> filled with -1, read and written within the
  image only.
\<close>

function blobLoop ::
  "nat \<Rightarrow> nat \<Rightarrow> int set \<Rightarrow> nat \<Rightarrow> int list \<Rightarrow> (int \<Rightarrow> int) \<Rightarrow> nat \<Rightarrow> (int \<Rightarrow> int) \<times> nat" where
  "blobLoop width height isBackground currentBlob [] blobId blobSize = (blobId, blobSize)"
| "blobLoop width height isBackground currentBlob (idx # queue) blobId blobSize =
     (if idx < 0 \<or> idx \<ge> int (width * height) \<or> idx \<in> isBackground \<or> blobId idx \<ge> 0
      then blobLoop width height isBackground currentBlob queue blobId blobSize
      else blobLoop width height isBackground currentBlob
             (rev (pushNeighbors width height idx) @ queue)
             (blobId(idx := int currentBlob)) (blobSize + 1))"
  by pat_completeness auto
termination
proof (relation "measures
        [\<lambda>(width, height, isBackground, currentBlob, queue, blobId, blobSize).
            card {i \<in> {0..<int (width * height)}. i \<notin> isBackground \<and> \<not> 0 \<le> blobId i},
         \<lambda>(width, height, isBackground, currentBlob, queue, blobId, blobSize). length queue]",
       goal_cases)
  case 1
  show ?case by simp
next
  case (2 width height isBackground currentBlob idx queue blobId blobSize)
  show ?case by simp
next
  case (3 width height isBackground currentBlob idx queue blobId blobSize)
  then show ?case
    using card_unlabelled_less
      [of idx "int (width * height)" isBackground blobId "int currentBlob"]
    by simp
qed

text \<open>The body of the loop over \<open>i\<close> that labels the blobs, and the loop.\<close>

definition labelStep ::
  "nat \<Rightarrow> nat \<Rightarrow> int set \<Rightarrow> int \<Rightarrow> (int \<Rightarrow> int) \<times> nat list \<times> nat
     \<Rightarrow> (int \<Rightarrow> int) \<times> nat list \<times> nat" where
  "labelStep width height isBackground i = (\<lambda>(blobId, blobSizes, currentBlob).
     if i \<in> isBackground \<or> blobId i \<ge> 0 then (blobId, blobSizes, currentBlob)
     else (let (blobId', blobSize) = blobLoop width height isBackground currentBlob [i] blobId 0
           in (blobId', blobSizes @ [blobSize], currentBlob + 1)))"

definition labelBlobs ::
  "nat \<Rightarrow> nat \<Rightarrow> int set \<Rightarrow> (int \<Rightarrow> int) \<times> nat list \<times> nat" where
  "labelBlobs width height isBackground =
     fold (labelStep width height isBackground) (map int [0..<width * height])
       (\<lambda>i. - 1, [], 0)"

text \<open>The loop that finds the largest blob, from \<open>b = 1\<close> with \<open>largestBlob = 0\<close>.\<close>

definition largestIndex :: "nat list \<Rightarrow> nat" where
  "largestIndex blobSizes =
     fold (\<lambda>b largestBlob. if blobSizes ! b > blobSizes ! largestBlob then b else largestBlob)
       [1..<length blobSizes] 0"

text \<open>The loop that marks every other blob as background and counts the marked pixels.\<close>

definition markOthers ::
  "nat \<Rightarrow> nat \<Rightarrow> (int \<Rightarrow> int) \<Rightarrow> nat \<Rightarrow> int set \<Rightarrow> int set \<times> nat" where
  "markOthers width height blobId largestBlob isBackground =
     fold (\<lambda>i (isBackground, extraRemoved).
             if i \<notin> isBackground \<and> blobId i \<noteq> int largestBlob
             then (insert i isBackground, extraRemoved + 1)
             else (isBackground, extraRemoved))
       (map int [0..<width * height]) (isBackground, 0)"

definition keepLargestBlob :: "int set \<Rightarrow> nat \<Rightarrow> nat \<Rightarrow> int set \<times> nat" where
  "keepLargestBlob isBackground width height =
     (let (blobId, blobSizes, currentBlob) = labelBlobs width height isBackground in
      if blobSizes = [] then (isBackground, 0)
      else markOthers width height blobId (largestIndex blobSizes) isBackground)"

section \<open>Stage 5: the feathered alpha at the edge\<close>

text \<open>
  The loops over \<open>dy\<close> and \<open>dx\<close> for a foreground pixel \<open>(x, y)\<close>: the least distance to a
  background pixel of the window, starting from the entry \<open>d\<close> of \<open>edgeDistance\<close>. The
  distances are modelled as reals: \<open>edgeDistance\<close> is a \<open>Float32Array\<close>, and rounding a
  square root to a float is monotone, so the minimum and the comparisons with the radius
  come out as on the exact square roots.
\<close>

definition windowDistance ::
  "int set \<Rightarrow> nat \<Rightarrow> nat \<Rightarrow> int \<Rightarrow> int \<Rightarrow> int \<Rightarrow> real \<Rightarrow> real" where
  "windowDistance isBackground width height radius x y d =
     fold (\<lambda>dy. fold (\<lambda>dx d.
             let nx = x + dx; ny = y + dy in
             if nx < 0 \<or> nx \<ge> int width \<or> ny < 0 \<or> ny \<ge> int height then d
             else if ny * int width + nx \<in> isBackground
             then min d (sqrt (of_int (dx * dx + dy * dy)))
             else d)
           [- radius..radius])
       [- radius..radius] d"

text \<open>The first pass: the array \<open>edgeDistance\<close>, filled with 999 at the start.\<close>

definition edgeDistances :: "int set \<Rightarrow> nat \<Rightarrow> nat \<Rightarrow> int \<Rightarrow> int \<Rightarrow> real" where
  "edgeDistances isBackground width height radius =
     fold (\<lambda>y. fold (\<lambda>x edgeDistance.
             let idx = y * int width + x in
             if idx \<in> isBackground then edgeDistance(idx := 0)
             else edgeDistance(idx :=
                    windowDistance isBackground width height radius x y (edgeDistance idx)))
           [0..int width - 1])
       [0..int height - 1] (\<lambda>i. 999)"

text \<open>
  \<open>Math.min(255, Math.round((d / radius) * 255))\<close>; \<open>Math.round\<close> rounds a half upwards,
  as \<open>round\<close> does.
\<close>

definition featherAlpha :: "real \<Rightarrow> int \<Rightarrow> int" where
  "featherAlpha d radius = min 255 (round (d / of_int radius * 255))"

text \<open>
  The second pass writes the alpha byte \<open>data[pi + 3]\<close> of background and near-edge pixels
  and counts the background pixels. A write beyond the end of the buffer is ignored, as
  \<open>list_update\<close> ignores it.
\<close>

definition applyEdgeSmoothing ::
  "byte list \<Rightarrow> int set \<Rightarrow> nat \<Rightarrow> nat \<Rightarrow> nat \<Rightarrow> int \<Rightarrow> byte list \<times> nat" where
  "applyEdgeSmoothing data isBackground width height channels radius =
     (let edgeDistance = edgeDistances isBackground width height radius in
      fold (\<lambda>i (data, removedPixels).
              let pi = i * int channels in
              if i \<in> isBackground then (data[nat (pi + 3) := 0], removedPixels + 1)
              else if edgeDistance i < of_int radius
              then (data[nat (pi + 3) := word_of_int (featherAlpha (edgeDistance i) radius)],
                    removedPixels)
              else (data, removedPixels))
        (map int [0..<width * height]) (data, 0))"

section \<open>The pipeline\<close>

text \<open>
  \<open>removeBackground\<close> passes the two shared arrays, the raster \<open>data\<close> and the mask
  \<open>isBackground\<close>, from stage to stage. Each stage below is the call as \<open>removeBackground\<close>
  makes it, on the pair of arrays; it updates the array that the called function writes.
\<close>

record buffers =
  pixels :: "byte list"
  mask :: "int set"

definition stageFlood :: "nat \<Rightarrow> nat \<Rightarrow> nat \<Rightarrow> buffers \<Rightarrow> buffers" where
  "stageFlood width height channels s =
     s\<lparr>mask := floodFillBackground (pixels s) width height channels\<rparr>"

definition stageCleanup :: "nat \<Rightarrow> nat \<Rightarrow> nat \<Rightarrow> buffers \<Rightarrow> buffers \<times> nat" where
  "stageCleanup width height channels s =
     (let (isBackground, shadowCleaned) =
            densityShadowCleanup (pixels s) (mask s) width height channels
      in (s\<lparr>mask := isBackground\<rparr>, shadowCleaned))"

definition stageBlob :: "nat \<Rightarrow> nat \<Rightarrow> buffers \<Rightarrow> buffers \<times> nat" where
  "stageBlob width height s =
     (let (isBackground, extraRemoved) = keepLargestBlob (mask s) width height
      in (s\<lparr>mask := isBackground\<rparr>, extraRemoved))"

definition stageFeather :: "nat \<Rightarrow> nat \<Rightarrow> nat \<Rightarrow> buffers \<Rightarrow> buffers \<times> nat" where
  "stageFeather width height channels s =
     (let (data, removedPixels) =
            applyEdgeSmoothing (pixels s) (mask s) width height channels 2
      in (s\<lparr>pixels := data\<rparr>, removedPixels))"

text \<open>The four pixel stages in the order of \<open>removeBackground\<close>, with their three counts.\<close>

definition pixelStages :: "nat \<Rightarrow> nat \<Rightarrow> nat \<Rightarrow> byte list \<Rightarrow> buffers \<times> nat \<times> nat \<times> nat" where
  "pixelStages width height channels data =
     (let s1 = stageFlood width height channels \<lparr>pixels = data, mask = {}\<rparr>;
          (s2, shadowCleaned) = stageCleanup width height channels s1;
          (s3, extraRemoved) = stageBlob width height s2;
          (s4, removedPixels) = stageFeather width height channels s3
      in (s4, removedPixels, extraRemoved, shadowCleaned))"

text \<open>
  The value of \<open>(allRemoved / totalPixels) * 100\<close> before \<open>toFixed(1)\<close> formats it; \<open>None\<close>
  stands for \<open>NaN\<close>, the quotient of zero by zero.
\<close>

definition percentRemoved :: "nat \<Rightarrow> nat \<Rightarrow> real option" where
  "percentRemoved allRemoved totalPixels =
     (if totalPixels = 0 then None else Some (real allRemoved / real totalPixels * 100))"

text \<open>
  The result object of \<open>removeBackground\<close>. The two calls into the image library can throw:
  decoding the input file, which yields the raw buffer with its width, height and number
  of channels, and encoding the output file. The model takes the decoded input (\<open>None\<close>
  when decoding throws) and whether the encoding of a buffer succeeds. The pixel stages
  themselves throw nothing: reads out of range yield \<open>undefined\<close>, writes out of range are
  ignored.
\<close>

datatype outcome = Success "real option" | Failure

definition removeBackground ::
  "(byte list \<times> nat \<times> nat \<times> nat) option \<Rightarrow> (byte list \<Rightarrow> bool) \<Rightarrow> outcome" where
  "removeBackground decoded encodes =
     (case decoded of
        None \<Rightarrow> Failure
      | Some (data, width, height, channels) \<Rightarrow>
          (let (s4, removedPixels, extraRemoved, shadowCleaned) =
                 pixelStages width height channels data
           in if encodes (pixels s4)
              then Success (percentRemoved (removedPixels + extraRemoved + shadowCleaned)
                              (width * height))
              else Failure))"

section \<open>Notions of the specification\<close>

subsection \<open>The classifier in the words of its contract\<close>

definition chromaThreshold :: int where
  "chromaThreshold = 50"

definition brightnessCeiling :: real where
  "brightnessCeiling = 185"

definition channelSpread :: "int \<Rightarrow> int \<Rightarrow> int \<Rightarrow> int" where
  "channelSpread r g b = Max {\<bar>r - g\<bar>, \<bar>g - b\<bar>, \<bar>r - b\<bar>}"

definition averageBrightness :: "int \<Rightarrow> int \<Rightarrow> int \<Rightarrow> real" where
  "averageBrightness r g b = (of_int r + of_int g + of_int b) / 3"

definition classifySpec :: "int \<Rightarrow> int \<Rightarrow> int \<Rightarrow> bool" where
  "classifySpec r g b \<longleftrightarrow>
     channelSpread r g b < chromaThreshold \<and> averageBrightness r g b \<le> brightnessCeiling"

subsection \<open>The pixel grid\<close>

text \<open>
  A pixel of the image, a pixel on one of the four edges, and 4-adjacency of two pixels of
  the image, by their coordinates \<open>x = i mod width\<close> and \<open>y = i div width\<close>.
\<close>

definition inImage :: "nat \<Rightarrow> nat \<Rightarrow> int \<Rightarrow> bool" where
  "inImage width height i \<longleftrightarrow> 0 \<le> i \<and> i < int (width * height)"

definition onEdge :: "nat \<Rightarrow> nat \<Rightarrow> int \<Rightarrow> bool" where
  "onEdge width height i \<longleftrightarrow>
     inImage width height i \<and>
     (i mod int width = 0 \<or> i mod int width = int width - 1 \<or>
      i div int width = 0 \<or> i div int width = int height - 1)"

definition adjacent4 :: "nat \<Rightarrow> nat \<Rightarrow> int \<Rightarrow> int \<Rightarrow> bool" where
  "adjacent4 width height i j \<longleftrightarrow>
     inImage width height i \<and> inImage width height j \<and>
     \<bar>i mod int width - j mod int width\<bar> + \<bar>i div int width - j div int width\<bar> = 1"

subsection \<open>Connection to the border\<close>

text \<open>
  A border path is a non-empty list of pixels that starts on an edge of the image, consists
  of classifier-positive pixels only, and steps from each pixel to a 4-adjacent one. A pixel
  is border-connected when a border path ends in it. The inductive predicate \<open>borderReach\<close>
  states the same by its steps; the two are proved equal below.
\<close>

definition borderPath :: "(int \<Rightarrow> bool) \<Rightarrow> nat \<Rightarrow> nat \<Rightarrow> int list \<Rightarrow> bool" where
  "borderPath cls width height ps \<longleftrightarrow>
     ps \<noteq> [] \<and> onEdge width height (hd ps) \<and> list_all cls ps \<and>
     successively (adjacent4 width height) ps"

definition borderConnected :: "(int \<Rightarrow> bool) \<Rightarrow> nat \<Rightarrow> nat \<Rightarrow> int \<Rightarrow> bool" where
  "borderConnected cls width height i \<longleftrightarrow>
     (\<exists>ps. borderPath cls width height ps \<and> last ps = i)"

inductive borderReach :: "(int \<Rightarrow> bool) \<Rightarrow> nat \<Rightarrow> nat \<Rightarrow> int \<Rightarrow> bool"
  for cls :: "int \<Rightarrow> bool" and width height :: nat where
  seed: "onEdge width height i \<Longrightarrow> cls i \<Longrightarrow> borderReach cls width height i"
| step: "borderReach cls width height i \<Longrightarrow> adjacent4 width height i j \<Longrightarrow> cls j
          \<Longrightarrow> borderReach cls width height j"

subsection \<open>A 3 by 3 image with an enclosed grey pixel\<close>

text \<open>
  Pixel 0 (a corner) and pixel 4 (the centre) are grey (112, 112, 112); the other seven
  pixels are white. Four bytes per pixel.
\<close>

definition enclosedImage :: "byte list" where
  "enclosedImage =
     [112, 112, 112, 255,  255, 255, 255, 255,  255, 255, 255, 255,
      255, 255, 255, 255,  112, 112, 112, 255,  255, 255, 255, 255,
      255, 255, 255, 255,  255, 255, 255, 255,  255, 255, 255, 255]"

subsection \<open>The shadow cleanup\<close>

text \<open>
  The sparse circular sample of a radius: the offsets \<open>(dy, dx)\<close> on every second row and
  column from \<open>- radius\<close> to \<open>radius\<close> that lie within the circle.
\<close>

definition circularSample :: "int \<Rightarrow> (int \<times> int) list" where
  "circularSample radius =
     filter (\<lambda>(dy, dx). dx * dx + dy * dy \<le> radius * radius)
       (List.product (evenOffsets radius) (evenOffsets radius))"

text \<open>The fraction of the sample around pixel \<open>idx\<close> that is marked background.\<close>

definition backgroundFraction :: "int set \<Rightarrow> nat \<Rightarrow> int \<Rightarrow> real" where
  "backgroundFraction isBackground width idx =
     real (length (filter (\<lambda>(dy, dx). idx + dy * int width + dx \<in> isBackground)
                     (circularSample shadowRadius)))
       / real (length (circularSample shadowRadius))"

text \<open>A pixel at least \<open>shadowRadius\<close> columns and rows away from every edge.\<close>

definition interior :: "nat \<Rightarrow> nat \<Rightarrow> int \<Rightarrow> bool" where
  "interior width height idx \<longleftrightarrow>
     shadowRadius \<le> idx mod int width \<and> idx mod int width < int width - shadowRadius \<and>
     shadowRadius \<le> idx div int width \<and> idx div int width < int height - shadowRadius"

text \<open>The criterion of a pass, on the mask as it is at the start of the pass.\<close>

definition queuedPixel :: "byte list \<Rightarrow> int set \<Rightarrow> nat \<Rightarrow> nat \<Rightarrow> nat \<Rightarrow> int \<Rightarrow> bool" where
  "queuedPixel data isBackground width height channels idx \<longleftrightarrow>
     interior width height idx \<and> idx \<notin> isBackground \<and> \<not> tooBright data channels idx \<and>
     backgroundFraction isBackground width idx > transparencyThreshold"

text \<open>The mask after a pass: every pixel that meets the criterion is added.\<close>

definition commitPass :: "byte list \<Rightarrow> nat \<Rightarrow> nat \<Rightarrow> nat \<Rightarrow> int set \<Rightarrow> int set" where
  "commitPass data width height channels isBackground =
     isBackground \<union> {idx. queuedPixel data isBackground width height channels idx}"

text \<open>
  A black 25 by 25 image of four bytes per pixel, and two masks that cover it but for one
  pixel: (11, 12) in the margin, and the centre (12, 12).
\<close>

definition darkImage :: "byte list" where
  "darkImage = replicate 2500 0"

definition marginHole :: "int set" where
  "marginHole = {0..<625} - {311}"

definition centreHole :: "int set" where
  "centreHole = {0..<625} - {312}"

subsection \<open>An image that is all background\<close>

text \<open>A 2 by 2 image of four grey pixels (112, 112, 112), four bytes per pixel.\<close>

definition greyImage :: "byte list" where
  "greyImage =
     [112, 112, 112, 255,  112, 112, 112, 255,
      112, 112, 112, 255,  112, 112, 112, 255]"

subsection \<open>An image with three foreground blobs\<close>

text \<open>
  A 5 by 1 image of white, grey, white, grey and white pixels, four bytes per pixel.
\<close>

definition stripes :: "byte list" where
  "stripes =
     [255, 255, 255, 255,  112, 112, 112, 255,  255, 255, 255, 255,
      112, 112, 112, 255,  255, 255, 255, 255]"

subsection \<open>The distance to the background\<close>

text \<open>
  The Euclidean distances from pixel \<open>i\<close> to the background pixels of its search window:
  the offsets from \<open>- radius\<close> to \<open>radius\<close> in each axis that stay inside the image. The
  nearest background pixel is at the least of them, if there is one.
\<close>

definition backgroundDistances :: "int set \<Rightarrow> nat \<Rightarrow> nat \<Rightarrow> int \<Rightarrow> int \<Rightarrow> real list" where
  "backgroundDistances isBackground width height radius i =
     map (\<lambda>(dy, dx). sqrt (of_int (dx * dx + dy * dy)))
       (filter (\<lambda>(dy, dx).
            0 \<le> i mod int width + dx \<and> i mod int width + dx < int width \<and>
            0 \<le> i div int width + dy \<and> i div int width + dy < int height \<and>
            (i div int width + dy) * int width + (i mod int width + dx) \<in> isBackground)
          (List.product [- radius..radius] [- radius..radius]))"

definition nearestBackground :: "int set \<Rightarrow> nat \<Rightarrow> nat \<Rightarrow> int \<Rightarrow> int \<Rightarrow> real option" where
  "nearestBackground isBackground width height radius i =
     (if backgroundDistances isBackground width height radius i = [] then None
      else Some (Min (set (backgroundDistances isBackground width height radius i))))"

text \<open>The index of the alpha byte of pixel \<open>i\<close> in the raster.\<close>

definition alphaIndex :: "nat \<Rightarrow> int \<Rightarrow> nat" where
  "alphaIndex channels i = nat (i * int channels + 3)"

subsection \<open>Foreground blobs\<close>

text \<open>
  A foreground pixel is a pixel of the image outside the mask. Two foreground pixels are in
  the same blob when a path of 4-adjacent foreground pixels joins them; the blob of a
  foreground pixel is the set of the pixels so joined to it, a 4-connected component.
\<close>

definition foreground :: "int set \<Rightarrow> nat \<Rightarrow> nat \<Rightarrow> int \<Rightarrow> bool" where
  "foreground isBackground width height i \<longleftrightarrow> inImage width height i \<and> i \<notin> isBackground"

inductive sameBlob :: "int set \<Rightarrow> nat \<Rightarrow> nat \<Rightarrow> int \<Rightarrow> int \<Rightarrow> bool"
  for isBackground :: "int set" and width height :: nat where
  start: "foreground isBackground width height i \<Longrightarrow> sameBlob isBackground width height i i"
| step: "sameBlob isBackground width height i j \<Longrightarrow> adjacent4 width height j k \<Longrightarrow>
          k \<notin> isBackground \<Longrightarrow> sameBlob isBackground width height i k"

definition blobOf :: "int set \<Rightarrow> nat \<Rightarrow> nat \<Rightarrow> int \<Rightarrow> int set" where
  "blobOf isBackground width height i = {j. sameBlob isBackground width height i j}"

section \<open>Invariants of the loops and auxiliary functions\<close>

text \<open>
  The invariant of the loop of the flood fill: marked pixels are visited and reachable; a visited
  classifier-positive pixel is marked; every edge pixel and every neighbour of a marked pixel
  is visited or queued; and every queued pixel of the image is an edge pixel or a neighbour
  of a marked pixel.
\<close>

definition floodInv ::
  "(int \<Rightarrow> bool) \<Rightarrow> nat \<Rightarrow> nat \<Rightarrow> int list \<Rightarrow> int set \<Rightarrow> int set \<Rightarrow> bool" where
  "floodInv cls width height queue visited bg \<longleftrightarrow>
     bg \<subseteq> visited \<and>
     (\<forall>p\<in>visited. cls p \<longrightarrow> p \<in> bg) \<and>
     (\<forall>p\<in>bg. borderReach cls width height p) \<and>
     (\<forall>p. onEdge width height p \<longrightarrow> p \<in> visited \<or> p \<in> set queue) \<and>
     (\<forall>p\<in>bg. \<forall>q. adjacent4 width height p q \<longrightarrow> q \<in> visited \<or> q \<in> set queue) \<and>
     (\<forall>q\<in>set queue. inImage width height q \<longrightarrow>
        onEdge width height q \<or> (\<exists>p\<in>bg. adjacent4 width height p q))"

text \<open>The values of \<open>for (let i = 0; i < width * height; i++)\<close>, in order.\<close>

definition pixelIndices :: "nat \<Rightarrow> nat \<Rightarrow> int list" where
  "pixelIndices width height = map int [0..<width * height]"

text \<open>
  The body of the second loop of \<open>applyEdgeSmoothing\<close> as a function of its own, and the
  alpha byte that the loop leaves for pixel \<open>i\<close> given the byte \<open>old\<close> it finds.
\<close>

definition smoothStep ::
  "int set \<Rightarrow> (int \<Rightarrow> real) \<Rightarrow> nat \<Rightarrow> int \<Rightarrow> int \<Rightarrow> byte list \<times> nat \<Rightarrow> byte list \<times> nat" where
  "smoothStep isBackground edgeDistance channels radius i = (\<lambda>(data, removedPixels).
     let pi = i * int channels in
     if i \<in> isBackground then (data[nat (pi + 3) := 0], removedPixels + 1)
     else if edgeDistance i < of_int radius
     then (data[nat (pi + 3) := word_of_int (featherAlpha (edgeDistance i) radius)],
           removedPixels)
     else (data, removedPixels))"

definition alphaWritten :: "int set \<Rightarrow> (int \<Rightarrow> real) \<Rightarrow> int \<Rightarrow> int \<Rightarrow> byte \<Rightarrow> byte" where
  "alphaWritten isBackground edgeDistance radius i old =
     (if i \<in> isBackground then 0
      else if edgeDistance i < of_int radius
      then word_of_int (featherAlpha (edgeDistance i) radius)
      else old)"

text \<open>An update of one entry of an array of reals from its old value.\<close>

definition updateAt :: "('k \<Rightarrow> int) \<Rightarrow> ('k \<Rightarrow> real \<Rightarrow> real) \<Rightarrow> 'k \<Rightarrow> (int \<Rightarrow> real) \<Rightarrow> int \<Rightarrow> real" where
  "updateAt key g k f = f(key k := g k (f (key k)))"

text \<open>
  The invariant of the inner loop of \<open>keepLargestBlob\<close> for the blob of the pixel \<open>i0\<close>:
  \<open>M\<close> is the set of the pixels labelled so far, all of the blob; the neighbours of a
  labelled pixel are labelled or stacked; and the foreground pixels of the stack belong to
  the blob.
\<close>

definition blobInv ::
  "int set \<Rightarrow> nat \<Rightarrow> nat \<Rightarrow> nat \<Rightarrow> int \<Rightarrow> (int \<Rightarrow> int) \<Rightarrow> int set \<Rightarrow> int list
     \<Rightarrow> (int \<Rightarrow> int) \<Rightarrow> nat \<Rightarrow> bool" where
  "blobInv isBackground width height currentBlob i0 blobId0 M queue blobId blobSize \<longleftrightarrow>
     finite M \<and> M \<subseteq> blobOf isBackground width height i0 \<and> blobSize = card M \<and>
     blobId = (\<lambda>j. if j \<in> M then int currentBlob else blobId0 j) \<and>
     (\<forall>p\<in>M. \<forall>q. adjacent4 width height p q \<and> q \<notin> isBackground \<longrightarrow>
        q \<in> M \<or> q \<in> set queue) \<and>
     (\<forall>q\<in>set queue. foreground isBackground width height q \<longrightarrow>
        q \<in> blobOf isBackground width height i0) \<and>
     (i0 \<in> M \<or> i0 \<in> set queue)"

text \<open>
  The invariant of the labelling loop before pixel \<open>n\<close>: \<open>seeds\<close> lists the first pixels
  of the blobs found so far, in increasing order; blob \<open>c\<close> is the blob of \<open>seeds ! c\<close>,
  labelled \<open>c\<close>, of size \<open>blobSizes ! c\<close>; and every foreground pixel before \<open>n\<close> is
  labelled.
\<close>

definition labelInv ::
  "int set \<Rightarrow> nat \<Rightarrow> nat \<Rightarrow> nat \<Rightarrow> int list \<Rightarrow> (int \<Rightarrow> int) \<times> nat list \<times> nat \<Rightarrow> bool" where
  "labelInv isBackground width height n seeds = (\<lambda>(blobId, blobSizes, currentBlob).
     currentBlob = length blobSizes \<and> length seeds = length blobSizes \<and>
     sorted_wrt (<) seeds \<and>
     (\<forall>j. blobId j = - 1 \<or>
          (foreground isBackground width height j \<and> 0 \<le> blobId j \<and>
           blobId j < int currentBlob)) \<and>
     (\<forall>i. foreground isBackground width height i \<and> i < int n \<longrightarrow> 0 \<le> blobId i) \<and>
     (\<forall>c<length seeds.
          foreground isBackground width height (seeds ! c) \<and> seeds ! c < int n \<and>
          {j. blobId j = int c} = blobOf isBackground width height (seeds ! c) \<and>
          blobSizes ! c = card (blobOf isBackground width height (seeds ! c)) \<and>
          (\<forall>j\<in>blobOf isBackground width height (seeds ! c). seeds ! c \<le> j)))"

section \<open>Properties of the classifier\<close>

lemma channelSpread_max: "channelSpread r g b = max (max \<bar>r - g\<bar> \<bar>g - b\<bar>) \<bar>r - b\<bar>"
  by (simp add: channelSpread_def max.commute max.left_commute)

text \<open>
  C2. For all byte values r, g, b the classifier \<open>isGreyPixel\<close> is true exactly when the
  channel spread max(|r-g|, |g-b|, |r-b|) is below 50 and the average brightness
  (r+g+b)/3 is at most 185. The classifier is a function of its three arguments alone: the
  source function reads nothing else and writes nothing.
\<close>

theorem isGreyPixel_iff_spec:
  fixes r g b :: byte
  shows "isGreyPixel (uint r) (uint g) (uint b) \<longleftrightarrow>
           classifySpec (uint r) (uint g) (uint b)"
  by (simp add: isGreyPixel_def classifySpec_def channelSpread_max averageBrightness_def
      chromaThreshold_def brightnessCeiling_def Let_def)

section \<open>The pixel grid\<close>

lemma coord_div: "0 \<le> x \<Longrightarrow> x < w \<Longrightarrow> (y * w + x) div w = (y::int)"
  by (simp add: div_pos_pos_trivial)

lemma coord_mod: "0 \<le> x \<Longrightarrow> x < w \<Longrightarrow> (y * w + x) mod w = (x::int)"
  by (simp add: mod_pos_pos_trivial)

lemma row_bound:
  fixes w h i :: int
  assumes w: "0 < w" and i: "i < w * h"
  shows "i div w < h"
proof (rule ccontr)
  assume "\<not> i div w < h"
  then have "h \<le> i div w" by simp
  then have "w * h \<le> w * (i div w)" using w by (simp add: mult_left_mono)
  moreover have "w * (i div w) + i mod w = i" by simp
  moreover have "0 \<le> i mod w" using w by simp
  ultimately show False using i by linarith
qed

lemma index_bound:
  fixes w h i :: int
  assumes w: "0 < w" and y: "i div w < h"
  shows "i < w * h"
proof -
  have "i div w + 1 \<le> h" using y by simp
  then have "w * (i div w + 1) \<le> w * h" using w by (simp add: mult_left_mono)
  moreover have "w * (i div w) + i mod w = i" by simp
  moreover have "i mod w < w" using w by simp
  moreover have "w * (i div w + 1) = w * (i div w) + w" by (simp add: algebra_simps)
  ultimately show ?thesis by linarith
qed

lemma inImage_coords:
  assumes "inImage width height i"
  shows "0 < int width" "0 \<le> i mod int width" "i mod int width < int width"
        "0 \<le> i div int width" "i div int width < int height"
proof -
  from assms have i: "0 \<le> i" "i < int width * int height" by (simp_all add: inImage_def)
  then have "0 < int width * int height" by linarith
  then show w: "0 < int width" by (simp add: zero_less_mult_iff)
  from w show "0 \<le> i mod int width" "i mod int width < int width" by simp_all
  from w i show "0 \<le> i div int width" by (simp add: pos_imp_zdiv_nonneg_iff)
  from w i(2) show "i div int width < int height" by (rule row_bound)
qed

lemma inImage_iff_coords:
  "inImage width height i \<longleftrightarrow>
     0 < int width \<and> 0 \<le> i div int width \<and> i div int width < int height"
proof
  assume "inImage width height i"
  then show "0 < int width \<and> 0 \<le> i div int width \<and> i div int width < int height"
    using inImage_coords by blast
next
  assume a: "0 < int width \<and> 0 \<le> i div int width \<and> i div int width < int height"
  then have "0 \<le> i" using pos_imp_zdiv_nonneg_iff by blast
  moreover from a have "i < int width * int height" by (simp add: index_bound)
  ultimately show "inImage width height i" by (simp add: inImage_def)
qed

lemma pixel_decomp: "i = (i div w) * w + i mod (w::int)"
  by simp

lemma set_pushNeighbors:
  assumes im: "inImage width height i"
  shows "set (pushNeighbors width height i) = {j. adjacent4 width height i j}"
proof -
  define w where "w = int width"
  define x where "x = i mod w"
  define y where "y = i div w"
  have c: "0 < w" "0 \<le> x" "x < w" "0 \<le> y" "y < int height"
    using inImage_coords [OF im] by (simp_all add: w_def x_def y_def)
  have i: "i = y * w + x" by (simp add: x_def y_def)
  have e1: "i - 1 = y * w + (x - 1)" and e2: "i + 1 = y * w + (x + 1)"
    and e3: "i - w = (y - 1) * w + x" and e4: "i + w = (y + 1) * w + x"
    by (simp_all add: i algebra_simps)
  have left: "(i - 1) mod w = x - 1 \<and> (i - 1) div w = y" if "0 < x"
    unfolding e1 using that c coord_div [of "x - 1" w y] coord_mod [of "x - 1" w y] by linarith
  have right: "(i + 1) mod w = x + 1 \<and> (i + 1) div w = y" if "x < w - 1"
    unfolding e2 using that c coord_div [of "x + 1" w y] coord_mod [of "x + 1" w y] by linarith
  have up: "(i - w) mod w = x \<and> (i - w) div w = y - 1"
    unfolding e3 using c coord_div [of x w "y - 1"] coord_mod [of x w "y - 1"] by linarith
  have down: "(i + w) mod w = x \<and> (i + w) div w = y + 1"
    unfolding e4 using c coord_div [of x w "y + 1"] coord_mod [of x w "y + 1"] by linarith
  show ?thesis
  proof (intro set_eqI iffI)
    fix j assume "j \<in> set (pushNeighbors width height i)"
    then consider "0 < x" "j = i - 1" | "x < w - 1" "j = i + 1"
      | "0 < y" "j = i - w" | "y < int height - 1" "j = i + w"
      by (auto simp: pushNeighbors_def Let_def w_def x_def y_def split: if_splits)
    then have "inImage width height j \<and> \<bar>x - j mod w\<bar> + \<bar>y - j div w\<bar> = 1"
    proof cases
      case 1 then show ?thesis using left c by (simp add: inImage_iff_coords [of _ _ "i - 1"] w_def [symmetric])
    next
      case 2 then show ?thesis using right c by (simp add: inImage_iff_coords [of _ _ "i + 1"] w_def [symmetric])
    next
      case 3 then show ?thesis using up c by (simp add: inImage_iff_coords [of _ _ "i - w"] w_def [symmetric])
    next
      case 4 then show ?thesis using down c by (simp add: inImage_iff_coords [of _ _ "i + w"] w_def [symmetric])
    qed
    then show "j \<in> {j. adjacent4 width height i j}"
      using im by (simp add: adjacent4_def w_def x_def y_def)
  next
    fix j assume "j \<in> {j. adjacent4 width height i j}"
    then have jm: "inImage width height j"
      and d: "\<bar>x - j mod w\<bar> + \<bar>y - j div w\<bar> = 1"
      by (simp_all add: adjacent4_def w_def x_def y_def)
    note cj = inImage_coords [OF jm, folded w_def]
    have j: "j = (j div w) * w + j mod w" by simp
    from d have "(j mod w = x - 1 \<and> j div w = y) \<or> (j mod w = x + 1 \<and> j div w = y) \<or>
        (j mod w = x \<and> j div w = y - 1) \<or> (j mod w = x \<and> j div w = y + 1)"
      by linarith
    then consider "j mod w = x - 1" "j div w = y" | "j mod w = x + 1" "j div w = y"
      | "j mod w = x" "j div w = y - 1" | "j mod w = x" "j div w = y + 1"
      by blast
    then show "j \<in> set (pushNeighbors width height i)"
    proof cases
      case 1
      have "j = y * w + (x - 1)" using j unfolding 1 .
      then have "j = i - 1" by (simp add: i)
      moreover have "0 < x" using 1 cj by simp
      ultimately show ?thesis
        by (simp add: pushNeighbors_def Let_def w_def [symmetric] x_def [symmetric])
    next
      case 2
      have "j = y * w + (x + 1)" using j unfolding 2 .
      then have "j = i + 1" by (simp add: i)
      moreover have "x < w - 1" using 2 cj by simp
      ultimately show ?thesis
        by (simp add: pushNeighbors_def Let_def w_def [symmetric] x_def [symmetric])
    next
      case 3
      have "j = (y - 1) * w + x" using j unfolding 3 .
      then have "j = i - w" by (simp add: i algebra_simps)
      moreover have "0 < y" using 3 cj by simp
      ultimately show ?thesis
        by (simp add: pushNeighbors_def Let_def w_def [symmetric] y_def [symmetric])
    next
      case 4
      have "j = (y + 1) * w + x" using j unfolding 4 .
      then have "j = i + w" by (simp add: i algebra_simps)
      moreover have "y < int height - 1" using 4 cj by simp
      ultimately show ?thesis
        by (simp add: pushNeighbors_def Let_def w_def [symmetric] y_def [symmetric])
    qed
  qed
qed

section \<open>Stage 2: the flood fill marks the border-connected classifier-positive pixels\<close>

lemma set_edgeSeeds:
  "set (edgeSeeds width height) =
     (\<Union>x\<in>{0..<width}. {int x, (int height - 1) * int width + int x}) \<union>
     (\<Union>y\<in>{1..<height - 1}. {int y * int width, int y * int width + (int width - 1)})"
  by (simp add: edgeSeeds_def)

lemma edgeSeeds_onEdge:
  assumes im: "inImage width height i"
  shows "i \<in> set (edgeSeeds width height) \<longleftrightarrow> onEdge width height i"
proof -
  define w where "w = int width"
  define x where "x = i mod w"
  define y where "y = i div w"
  have c: "0 < w" "0 \<le> x" "x < w" "0 \<le> y" "y < int height"
    using inImage_coords [OF im] by (simp_all add: w_def x_def y_def)
  have i: "i = y * w + x" by (simp add: x_def y_def)
  show ?thesis
  proof
    assume "i \<in> set (edgeSeeds width height)"
    then consider k where "k < width" "i = int k"
      | k where "k < width" "i = (int height - 1) * w + int k"
      | k where "i = int k * w"
      | k where "i = int k * w + (w - 1)"
      by (auto simp: set_edgeSeeds w_def)
    then have "x = 0 \<or> x = w - 1 \<or> y = 0 \<or> y = int height - 1"
    proof cases
      case 1
      then have "y = 0" using c by (simp add: y_def w_def div_pos_pos_trivial)
      then show ?thesis by simp
    next
      case 2
      then have "y = int height - 1"
        using coord_div [of "int k" w "int height - 1"] by (simp add: y_def w_def)
      then show ?thesis by simp
    next
      case 3
      then have "x = 0" by (simp add: x_def)
      then show ?thesis by simp
    next
      case 4
      then have "x = w - 1" using coord_mod [of "w - 1" w "int k"] c by (simp add: x_def)
      then show ?thesis by simp
    qed
    then show "onEdge width height i"
      using im by (simp add: onEdge_def x_def y_def w_def)
  next
    assume "onEdge width height i"
    then have e: "x = 0 \<or> x = w - 1 \<or> y = 0 \<or> y = int height - 1"
      by (simp add: onEdge_def x_def y_def w_def)
    have xk: "int (nat x) = x" "nat x < width" using c by (simp_all add: w_def)
    show "i \<in> set (edgeSeeds width height)"
    proof (cases "y = 0 \<or> y = int height - 1")
      case True
      then have "i = int (nat x) \<or> i = (int height - 1) * w + int (nat x)"
        using i xk by auto
      then show ?thesis using xk(2) unfolding set_edgeSeeds w_def by fastforce
    next
      case False
      then have yk: "int (nat y) = y" "nat y \<in> {1..<height - 1}" using c by auto
      from False e have "i = int (nat y) * w \<or> i = int (nat y) * w + (w - 1)"
        using i yk(1) by auto
      then show ?thesis using yk(2) unfolding set_edgeSeeds w_def by fastforce
    qed
  qed
qed

lemma borderReach_inImage: "borderReach cls width height i \<Longrightarrow> inImage width height i"
  by (induction rule: borderReach.induct) (simp_all add: onEdge_def adjacent4_def)

lemma borderReach_cls: "borderReach cls width height i \<Longrightarrow> cls i"
  by (induction rule: borderReach.induct) simp_all

lemma borderPath_reach:
  "borderPath cls width height ps \<Longrightarrow> borderReach cls width height (last ps)"
proof (induction ps rule: rev_induct)
  case Nil
  then show ?case by (simp add: borderPath_def)
next
  case (snoc x qs)
  show ?case
  proof (cases "qs = []")
    case True
    with snoc.prems show ?thesis by (simp add: borderPath_def borderReach.seed)
  next
    case False
    with snoc.prems have "borderPath cls width height qs"
      and "adjacent4 width height (last qs) x" and "cls x"
      by (simp_all add: borderPath_def successively_append_iff)
    with snoc.IH show ?thesis by (simp add: borderReach.step)
  qed
qed

lemma borderReach_path:
  "borderReach cls width height i \<Longrightarrow> \<exists>ps. borderPath cls width height ps \<and> last ps = i"
proof (induction rule: borderReach.induct)
  case (seed i)
  then have "borderPath cls width height [i]" by (simp add: borderPath_def)
  then show ?case by force
next
  case (step i j)
  then obtain ps where ps: "borderPath cls width height ps" "last ps = i" by blast
  with step.hyps have "borderPath cls width height (ps @ [j])"
    by (simp add: borderPath_def successively_append_iff)
  then show ?case by force
qed

lemma borderConnected_iff_reach:
  "borderConnected cls width height i \<longleftrightarrow> borderReach cls width height i"
  unfolding borderConnected_def using borderPath_reach borderReach_path by blast

lemma floodInv_initial: "floodInv cls width height (edgeSeeds width height) {} {}"
  unfolding floodInv_def using edgeSeeds_onEdge by (auto simp: onEdge_def)

lemma floodInv_skip:
  assumes "floodInv cls width height (idx # queue) visited bg"
    and "idx < 0 \<or> idx \<ge> int (width * height) \<or> idx \<in> visited"
  shows "floodInv cls width height queue visited bg"
proof -
  have out: "\<not> inImage width height idx \<or> idx \<in> visited"
    using assms(2) by (auto simp: inImage_def)
  have "onEdge width height p \<Longrightarrow> p \<in> visited \<or> p \<in> set queue" for p
    using assms(1) out unfolding floodInv_def onEdge_def by (metis set_ConsD)
  moreover have "p \<in> bg \<Longrightarrow> adjacent4 width height p q \<Longrightarrow> q \<in> visited \<or> q \<in> set queue" for p q
    using assms(1) out unfolding floodInv_def adjacent4_def by (metis set_ConsD)
  ultimately show ?thesis using assms(1) unfolding floodInv_def by simp
qed

lemma floodInv_other:
  assumes "floodInv cls width height (idx # queue) visited bg" and "\<not> cls idx"
  shows "floodInv cls width height queue (insert idx visited) bg"
proof -
  have "onEdge width height p \<Longrightarrow> p \<in> insert idx visited \<or> p \<in> set queue" for p
    using assms(1) unfolding floodInv_def by (metis insertCI set_ConsD)
  moreover have "p \<in> bg \<Longrightarrow> adjacent4 width height p q
      \<Longrightarrow> q \<in> insert idx visited \<or> q \<in> set queue" for p q
    using assms(1) unfolding floodInv_def by (metis insertCI set_ConsD)
  ultimately show ?thesis using assms unfolding floodInv_def by auto
qed

lemma floodInv_grey:
  assumes inv: "floodInv cls width height (idx # queue) visited bg"
    and im: "inImage width height idx" and g: "cls idx"
  shows "floodInv cls width height (queue @ pushNeighbors width height idx)
           (insert idx visited) (insert idx bg)"
proof -
  note nb = set_pushNeighbors [OF im]
  have r: "borderReach cls width height idx"
  proof -
    from inv im have "onEdge width height idx \<or> (\<exists>p\<in>bg. adjacent4 width height p idx)"
      unfolding floodInv_def by simp
    then show ?thesis
    proof
      assume "onEdge width height idx"
      then show ?thesis using g by (rule borderReach.seed)
    next
      assume "\<exists>p\<in>bg. adjacent4 width height p idx"
      then obtain p where p: "p \<in> bg" "adjacent4 width height p idx" by blast
      with inv have "borderReach cls width height p" unfolding floodInv_def by blast
      with p(2) g show ?thesis by (blast intro: borderReach.step)
    qed
  qed
  have i4: "onEdge width height p \<Longrightarrow>
      p \<in> insert idx visited \<or> p \<in> set (queue @ pushNeighbors width height idx)" for p
    using inv unfolding floodInv_def by (metis UnCI insertCI set_ConsD set_append)
  have i5: "p \<in> insert idx bg \<Longrightarrow> adjacent4 width height p q \<Longrightarrow>
      q \<in> insert idx visited \<or> q \<in> set (queue @ pushNeighbors width height idx)" for p q
  proof (cases "p = idx")
    case True
    assume "adjacent4 width height p q"
    with True show ?thesis by (simp add: nb)
  next
    case False
    assume "p \<in> insert idx bg" "adjacent4 width height p q"
    with False inv have "q \<in> visited \<or> q \<in> set (idx # queue)"
      unfolding floodInv_def by blast
    then show ?thesis by auto
  qed
  have i6: "q \<in> set (queue @ pushNeighbors width height idx) \<Longrightarrow> inImage width height q \<Longrightarrow>
      onEdge width height q \<or> (\<exists>p\<in>insert idx bg. adjacent4 width height p q)" for q
  proof -
    assume q: "q \<in> set (queue @ pushNeighbors width height idx)" "inImage width height q"
    show ?thesis
    proof (cases "q \<in> set queue")
      case True
      with inv q(2) have "onEdge width height q \<or> (\<exists>p\<in>bg. adjacent4 width height p q)"
        unfolding floodInv_def by simp
      then show ?thesis by blast
    next
      case False
      with q(1) have "adjacent4 width height idx q" by (simp add: nb)
      then show ?thesis by blast
    qed
  qed
  have i1: "insert idx bg \<subseteq> insert idx visited"
    using inv unfolding floodInv_def by blast
  have i2: "\<forall>p\<in>insert idx visited. cls p \<longrightarrow> p \<in> insert idx bg"
    using inv unfolding floodInv_def by blast
  have i3: "\<forall>p\<in>insert idx bg. borderReach cls width height p"
    using inv r unfolding floodInv_def by blast
  have j4: "\<forall>p. onEdge width height p \<longrightarrow>
      p \<in> insert idx visited \<or> p \<in> set (queue @ pushNeighbors width height idx)"
    using i4 by blast
  have j5: "\<forall>p\<in>insert idx bg. \<forall>q. adjacent4 width height p q \<longrightarrow>
      q \<in> insert idx visited \<or> q \<in> set (queue @ pushNeighbors width height idx)"
    using i5 by blast
  have j6: "\<forall>q\<in>set (queue @ pushNeighbors width height idx). inImage width height q \<longrightarrow>
      onEdge width height q \<or> (\<exists>p\<in>insert idx bg. adjacent4 width height p q)"
    using i6 by blast
  show ?thesis
    unfolding floodInv_def by (intro conjI i1 i2 i3 j4 j5 j6)
qed

lemma floodInv_final:
  assumes "floodInv cls width height [] visited bg"
  shows "i \<in> bg \<longleftrightarrow> borderReach cls width height i"
proof
  assume "i \<in> bg"
  with assms show "borderReach cls width height i" unfolding floodInv_def by blast
next
  assume "borderReach cls width height i"
  then show "i \<in> bg"
  proof (induction rule: borderReach.induct)
    case (seed i)
    with assms show ?case unfolding floodInv_def by auto
  next
    case (step i j)
    with assms show ?case unfolding floodInv_def by auto
  qed
qed

lemma floodLoop_reach:
  "floodInv (greyAt data channels) width height queue visited bg \<Longrightarrow>
   i \<in> floodLoop data width height channels queue visited bg \<longleftrightarrow>
     borderReach (greyAt data channels) width height i"
proof (induction data width height channels queue visited bg rule: floodLoop.induct)
  case (1 data width height channels visited isBackground)
  then show ?case by (simp add: floodInv_final)
next
  case (2 data width height channels idx queue visited isBackground)
  show ?case
  proof (cases "idx < 0 \<or> idx \<ge> int (width * height) \<or> idx \<in> visited")
    case True
    with 2 show ?thesis using floodInv_skip [OF "2.prems"] by simp
  next
    case False
    then have im: "inImage width height idx" by (simp add: inImage_def)
    show ?thesis
    proof (cases "greyAt data channels idx")
      case g: True
      with 2 False show ?thesis using floodInv_grey [OF "2.prems" im g] by simp
    next
      case g: False
      with 2 False show ?thesis using floodInv_other [OF "2.prems" g] by simp
    qed
  qed
qed

lemma floodFill_inImage:
  "i \<in> floodFillBackground data width height channels \<Longrightarrow> inImage width height i"
  using floodLoop_reach [OF floodInv_initial] borderReach_inImage
  unfolding floodFillBackground_def by blast

text \<open>
  C1. For every image buffer, \<open>floodFillBackground\<close> marks a pixel in the background mask if
  and only if the pixel satisfies the background classifier and is reachable from a pixel on
  one of the four image edges through a 4-connected path of classifier-positive pixels. In
  particular a classifier-positive pixel that is not border-connected is never marked.
\<close>

theorem floodFill_border_connected:
  "i \<in> floodFillBackground data width height channels \<longleftrightarrow>
     greyAt data channels i \<and> borderConnected (greyAt data channels) width height i"
  unfolding floodFillBackground_def
  using floodLoop_reach [OF floodInv_initial] borderReach_cls
  by (auto simp: borderConnected_iff_reach)

lemma floodFill_enclosedImage: "floodFillBackground enclosedImage 3 3 4 = {0}"
  by (simp add: floodFillBackground_def edgeSeeds_def pushNeighbors_def greyAt_def pixelAt_def
      isGreyPixel_def enclosedImage_def upt_rec)

lemma greyAt_enclosedImage: "greyAt enclosedImage 4 4"
  by (simp add:  greyAt_def pixelAt_def isGreyPixel_def enclosedImage_def)

theorem floodFill_enclosed_witness:
  "greyAt enclosedImage 4 4 \<and> \<not> borderConnected (greyAt enclosedImage 4) 3 3 4 \<and>
   4 \<notin> floodFillBackground enclosedImage 3 3 4 \<and>
   borderConnected (greyAt enclosedImage 4) 3 3 0"
  using floodFill_border_connected [of 4 enclosedImage 3 3 4]
    floodFill_border_connected [of 0 enclosedImage 3 3 4] floodFill_enclosedImage greyAt_enclosedImage
  by simp

section \<open>Stage 3: the passes of the shadow cleanup\<close>

lemma fold_rows:
  "fold (\<lambda>y. fold (f y) xs) ys s = fold (\<lambda>(y, x). f y x) (List.product ys xs) s"
proof (induction ys arbitrary: s)
  case Nil
  show ?case by simp
next
  case (Cons y ys)
  have "fold (\<lambda>(y, x). f y x) (map (Pair y) xs) s = fold (f y) xs s" for s
    by (simp add: fold_map comp_def)
  then show ?case by (simp add: Cons.IH)
qed

lemma fold_push_filter:
  "fold (\<lambda>k acc. if P k then acc @ [g k] else acc) ks acc = acc @ map g (filter P ks)"
  by (induction ks arbitrary: acc) simp_all

lemma fold_insert_set: "fold insert xs A = A \<union> set xs"
  by (induction xs arbitrary: A) auto

lemma fold_count_pairs:
  "fold (\<lambda>k (a, b). if Q k then (a, b) else (if P k then a + 1 else a, b + 1)) ks (a0, b0) =
     (a0 + length (filter (\<lambda>k. \<not> Q k \<and> P k) ks), b0 + length (filter (\<lambda>k. \<not> Q k) ks))"
  by (induction ks arbitrary: a0 b0) simp_all

lemma sampleCounts_eq:
  "sampleCounts isBackground width radius x y =
     (length (filter (\<lambda>(dy, dx). (y + dy) * int width + (x + dx) \<in> isBackground)
                (circularSample radius)),
      length (circularSample radius))"
proof -
  let ?Q = "\<lambda>(dy, dx). dx * dx + dy * dy > radius * radius"
  let ?P = "\<lambda>(dy, dx). (y + dy) * int width + (x + dx) \<in> isBackground"
  have body: "(\<lambda>(dy, dx) (transparent, total).
             if dx * dx + dy * dy > radius * radius then (transparent, total)
             else let nidx = (y + dy) * int width + (x + dx) in
               (if nidx \<in> isBackground then transparent + 1 else transparent, total + 1))
     = (\<lambda>k (a, b). if ?Q k then (a, b) else (if ?P k then a + 1 else a, b + 1))"
    by (simp add: fun_eq_iff Let_def)
  have nq: "(\<lambda>k. \<not> ?Q k) = (\<lambda>(dy, dx). dx * dx + dy * dy \<le> radius * radius)"
    by (simp add: fun_eq_iff not_less)
  have "filter (\<lambda>k. \<not> ?Q k \<and> ?P k) ks = filter ?P (filter (\<lambda>k. \<not> ?Q k) ks)" for ks
    by (simp add: conj_commute)
  then show ?thesis
    unfolding sampleCounts_def fold_rows body fold_count_pairs circularSample_def nq
    by simp
qed

lemma shadowScan_eq:
  "shadowScan data isBackground width height channels =
     map (\<lambda>(y, x). y * int width + x)
       (filter (\<lambda>(y, x). y * int width + x \<notin> isBackground \<and>
                  \<not> tooBright data channels (y * int width + x) \<and>
                  (case sampleCounts isBackground width shadowRadius x y of
                     (t, n) \<Rightarrow> real t / real n > transparencyThreshold))
          (List.product [shadowRadius..int height - shadowRadius - 1]
                        [shadowRadius..int width - shadowRadius - 1]))"
proof -
  let ?P = "\<lambda>(y, x). y * int width + x \<notin> isBackground \<and>
                  \<not> tooBright data channels (y * int width + x) \<and>
                  (case sampleCounts isBackground width shadowRadius x y of
                     (t, n) \<Rightarrow> real t / real n > transparencyThreshold)"
  have body: "(\<lambda>(y, x) toRemove.
             let idx = y * int width + x in
             if idx \<in> isBackground then toRemove
             else if tooBright data channels idx then toRemove
             else let (transparent, total) = sampleCounts isBackground width shadowRadius x y in
               if real transparent / real total > transparencyThreshold
               then toRemove @ [idx] else toRemove)
     = (\<lambda>k acc. if ?P k then acc @ [(\<lambda>(y, x). y * int width + x) k] else acc)"
    by (simp add: fun_eq_iff Let_def split: prod.splits)
  show ?thesis
    unfolding shadowScan_def fold_rows body fold_push_filter by simp
qed

lemma neighbour_index: "(y + dy) * w + (x + dx) = (y * w + x) + dy * w + (dx::int)"
  by (simp add: algebra_simps)

lemma shadowScan_iff:
  "idx \<in> set (shadowScan data isBackground width height channels) \<longleftrightarrow>
     queuedPixel data isBackground width height channels idx"
proof -
  define w where "w = int width"
  have frac: "(case sampleCounts isBackground width shadowRadius x y of
                (t, n) \<Rightarrow> real t / real n > transparencyThreshold)
      \<longleftrightarrow> backgroundFraction isBackground width (y * w + x) > transparencyThreshold" for x y
    by (simp add: sampleCounts_eq backgroundFraction_def neighbour_index w_def)
  show ?thesis
  proof
    assume "idx \<in> set (shadowScan data isBackground width height channels)"
    then obtain x y where xy: "idx = y * w + x" "shadowRadius \<le> x" "x \<le> w - shadowRadius - 1"
        "shadowRadius \<le> y" "y \<le> int height - shadowRadius - 1"
      and q: "idx \<notin> isBackground" "\<not> tooBright data channels idx"
        "backgroundFraction isBackground width idx > transparencyThreshold"
      unfolding shadowScan_eq using frac by (auto simp: w_def)
    have x: "0 \<le> x" "x < w" using xy by (simp_all add: shadowRadius_def)
    have "idx mod w = x" "idx div w = y"
      using coord_mod [OF x] coord_div [OF x] by (simp_all add: xy(1))
    then have "interior width height idx"
      using xy by (simp add: interior_def w_def)
    with q show "queuedPixel data isBackground width height channels idx"
      by (simp add: queuedPixel_def)
  next
    assume a: "queuedPixel data isBackground width height channels idx"
    define x where "x = idx mod w"
    define y where "y = idx div w"
    have i: "idx = y * w + x" by (simp add: x_def y_def)
    from a have "(y, x) \<in> set (List.product [shadowRadius..int height - shadowRadius - 1]
                        [shadowRadius..int width - shadowRadius - 1])"
      by (simp add: queuedPixel_def interior_def x_def y_def w_def)
    moreover from a have "y * w + x \<notin> isBackground \<and> \<not> tooBright data channels (y * w + x) \<and>
        backgroundFraction isBackground width (y * w + x) > transparencyThreshold"
      by (simp add: queuedPixel_def i [symmetric])
    ultimately have m: "(y, x) \<in> set (filter (\<lambda>(y, x). y * int width + x \<notin> isBackground \<and>
                  \<not> tooBright data channels (y * int width + x) \<and>
                  (case sampleCounts isBackground width shadowRadius x y of
                     (t, n) \<Rightarrow> real t / real n > transparencyThreshold))
          (List.product [shadowRadius..int height - shadowRadius - 1]
                        [shadowRadius..int width - shadowRadius - 1]))"
      using frac by (simp add: w_def)
    show "idx \<in> set (shadowScan data isBackground width height channels)"
      unfolding shadowScan_eq set_map by (rule image_eqI [OF _ m]) (simp add: i w_def)
  qed
qed

lemma distinct_shadowScan: "distinct (shadowScan data isBackground width height channels)"
proof -
  define w where "w = int width"
  let ?ps = "List.product [shadowRadius..int height - shadowRadius - 1]
                        [shadowRadius..w - shadowRadius - 1]"
  have inj: "inj_on (\<lambda>(y, x). y * w + x) (set ?ps)"
  proof (rule inj_onI)
    fix p q assume p: "p \<in> set ?ps" and q: "q \<in> set ?ps"
      and e: "(case p of (y, x) \<Rightarrow> y * w + x) = (case q of (y, x) \<Rightarrow> y * w + x)"
    obtain y x where pp: "p = (y, x)" by (cases p)
    obtain y' x' where qq: "q = (y', x')" by (cases q)
    have x: "0 \<le> x" "x < w" and x': "0 \<le> x'" "x' < w"
      using p q by (simp_all add: pp qq shadowRadius_def)
    from e have e': "y * w + x = y' * w + x'" by (simp add: pp qq)
    have "y = y'" using coord_div [OF x, of y] coord_div [OF x', of y'] e' by simp
    moreover have "x = x'" using coord_mod [OF x, of y] coord_mod [OF x', of y'] e' by simp
    ultimately show "p = q" by (simp add: pp qq)
  qed
  have d: "distinct ?ps" by (simp add: distinct_product)
  have "distinct (map (\<lambda>(y, x). y * w + x) (filter P ?ps))" for P
  proof -
    have "inj_on (\<lambda>(y, x). y * w + x) (set (filter P ?ps))"
      by (rule inj_on_subset [OF inj]) (rule filter_is_subset)
    moreover have "distinct (filter P ?ps)" using d by (rule distinct_filter)
    ultimately show ?thesis by (simp only: distinct_map)
  qed
  then show ?thesis unfolding shadowScan_eq w_def by blast
qed

lemma set_shadowScan:
  "set (shadowScan data isBackground width height channels) =
     {idx. queuedPixel data isBackground width height channels idx}"
  using shadowScan_iff by blast

lemma length_shadowScan:
  "length (shadowScan data isBackground width height channels) =
     card {idx. queuedPixel data isBackground width height channels idx}"
  using distinct_card [OF distinct_shadowScan] by (simp add: set_shadowScan)

lemma shadowScan_commit:
  "fold insert (shadowScan data isBackground width height channels) isBackground =
     commitPass data width height channels isBackground"
  by (simp add: fold_insert_set set_shadowScan commitPass_def)

lemma shadowPasses_unfold:
  "shadowPasses data width height channels pass isBackground totalCleaned =
     (if pass < passes \<and> shadowScan data isBackground width height channels \<noteq> []
      then shadowPasses data width height channels (pass + 1)
             (commitPass data width height channels isBackground)
             (totalCleaned + card {idx. queuedPixel data isBackground width height channels idx})
      else (isBackground, totalCleaned))"
  by (subst shadowPasses.simps) (simp add: Let_def shadowScan_commit length_shadowScan)

lemma shadowScan_empty_iff:
  "shadowScan data isBackground width height channels = [] \<longleftrightarrow>
     \<not> (\<exists>idx. queuedPixel data isBackground width height channels idx)"
  using set_shadowScan [of data isBackground width height channels] by auto

lemma shadowPasses_subset:
  "isBackground \<subseteq> fst (shadowPasses data width height channels pass isBackground totalCleaned)"
proof (induction data width height channels pass isBackground totalCleaned
    rule: shadowPasses.induct)
  case (1 data width height channels pass isBackground totalCleaned)
  show ?case
  proof (cases "pass < passes \<and> shadowScan data isBackground width height channels \<noteq> []")
    case True
    then have "fold insert (shadowScan data isBackground width height channels) isBackground
        \<subseteq> fst (shadowPasses data width height channels (pass + 1)
               (fold insert (shadowScan data isBackground width height channels) isBackground)
               (totalCleaned + length (shadowScan data isBackground width height channels)))"
      using 1 by simp
    then show ?thesis
      using True
      by (subst shadowPasses.simps) (auto simp: Let_def fold_insert_set)
  next
    case False
    then show ?thesis by (subst shadowPasses.simps) (auto simp: Let_def)
  qed
qed

lemma shadowPasses_run:
  assumes "passes - pass = n" "pass \<le> passes"
  shows "\<exists>k\<le>n.
      shadowPasses data width height channels pass isBackground totalCleaned =
        ((commitPass data width height channels ^^ k) isBackground,
         totalCleaned + (\<Sum>j<k. card {idx. queuedPixel data
             ((commitPass data width height channels ^^ j) isBackground)
             width height channels idx})) \<and>
      (\<forall>j<k. \<exists>idx. queuedPixel data ((commitPass data width height channels ^^ j) isBackground)
                 width height channels idx) \<and>
      (k < n \<longrightarrow> \<not> (\<exists>idx. queuedPixel data
                 ((commitPass data width height channels ^^ k) isBackground)
                 width height channels idx))"
  using assms
proof (induction n arbitrary: pass isBackground totalCleaned)
  case 0
  then have "\<not> pass < passes" by simp
  then have "shadowPasses data width height channels pass isBackground totalCleaned =
      (isBackground, totalCleaned)"
    by (subst shadowPasses_unfold) simp
  then show ?case by simp
next
  case (Suc n)
  let ?C = "commitPass data width height channels"
  let ?Q = "\<lambda>m. {idx. queuedPixel data m width height channels idx}"
  from Suc.prems have lt: "pass < passes" by simp
  show ?case
  proof (cases "\<exists>idx. queuedPixel data isBackground width height channels idx")
    case False
    then have "shadowPasses data width height channels pass isBackground totalCleaned =
        (isBackground, totalCleaned)"
      by (subst shadowPasses_unfold) (simp add: shadowScan_empty_iff)
    with False show ?thesis by (intro exI [of _ 0]) simp
  next
    case True
    then have step: "shadowPasses data width height channels pass isBackground totalCleaned =
        shadowPasses data width height channels (pass + 1) (?C isBackground)
          (totalCleaned + card (?Q isBackground))"
      using lt by (subst shadowPasses_unfold) (simp add: shadowScan_empty_iff)
    from Suc.prems have "passes - (pass + 1) = n" "pass + 1 \<le> passes" by simp_all
    from Suc.IH [OF this, of "?C isBackground" "totalCleaned + card (?Q isBackground)"]
    obtain k where k: "k \<le> n"
      and res: "shadowPasses data width height channels (pass + 1) (?C isBackground)
          (totalCleaned + card (?Q isBackground)) =
        ((?C ^^ k) (?C isBackground),
         totalCleaned + card (?Q isBackground) + (\<Sum>j<k. card (?Q ((?C ^^ j) (?C isBackground)))))"
      and all: "\<forall>j<k. \<exists>idx. queuedPixel data ((?C ^^ j) (?C isBackground)) width height channels idx"
      and stop: "k < n \<longrightarrow> \<not> (\<exists>idx. queuedPixel data ((?C ^^ k) (?C isBackground))
                 width height channels idx)"
      by blast
    have sh: "(?C ^^ j) (?C isBackground) = (?C ^^ Suc j) isBackground" for j
      by (simp add: funpow_swap1)
    have sum: "(\<Sum>j<Suc k. card (?Q ((?C ^^ j) isBackground))) =
        card (?Q isBackground) + (\<Sum>j<k. card (?Q ((?C ^^ Suc j) isBackground)))"
      by (subst sum.lessThan_Suc_shift) simp
    have a: "shadowPasses data width height channels pass isBackground totalCleaned =
        ((?C ^^ Suc k) isBackground,
         totalCleaned + (\<Sum>j<Suc k. card (?Q ((?C ^^ j) isBackground))))"
      unfolding step res sh sum by simp
    have b: "\<forall>j<Suc k. \<exists>idx. queuedPixel data ((?C ^^ j) isBackground) width height channels idx"
    proof (intro allI impI)
      fix j assume "j < Suc k"
      show "\<exists>idx. queuedPixel data ((?C ^^ j) isBackground) width height channels idx"
      proof (cases j)
        case 0
        with True show ?thesis by simp
      next
        case (Suc j')
        with \<open>j < Suc k\<close> all have
          "\<exists>idx. queuedPixel data ((?C ^^ j') (?C isBackground)) width height channels idx"
          by simp
        then show ?thesis unfolding sh Suc .
      qed
    qed
    have c: "Suc k < Suc n \<longrightarrow> \<not> (\<exists>idx. queuedPixel data ((?C ^^ Suc k) isBackground)
                 width height channels idx)"
      using stop unfolding sh by simp
    from k have "Suc k \<le> Suc n" by simp
    with a b c show ?thesis by blast
  qed
qed

lemma pixelAt_darkImage: "0 \<le> i \<Longrightarrow> i < 625 \<Longrightarrow> pixelAt darkImage 4 i = Some (0, 0, 0)"
  by (simp add: pixelAt_def darkImage_def)

lemma evenOffsets_12: "evenOffsets 12 = [-12, -10, -8, -6, -4, -2, 0, 2, 4, 6, 8, 10, 12]"
  by (simp add: evenOffsets_def upt_rec)

lemma shadowScan_marginHole: "shadowScan darkImage marginHole 25 25 4 = []"
  by (simp add: shadowScan_def shadowRadius_def marginHole_def)

lemma backgroundFraction_marginHole: "backgroundFraction marginHole 25 311 = 112 / 113"
  by (simp add: backgroundFraction_def circularSample_def shadowRadius_def evenOffsets_12
    marginHole_def)

lemma shadowScan_centreHole: "shadowScan darkImage centreHole 25 25 4 = [312]"
  by (simp add: shadowScan_def shadowRadius_def centreHole_def tooBright_def pixelAt_darkImage
     brightnessMax_def sampleCounts_def evenOffsets_12 transparencyThreshold_def)

lemma backgroundFraction_centreHole: "backgroundFraction centreHole 25 312 = 112 / 113"
  by (simp add: backgroundFraction_def circularSample_def shadowRadius_def evenOffsets_12
    centreHole_def)

lemma shadowScan_filled: "shadowScan darkImage (insert 312 centreHole) 25 25 4 = []"
  by (simp add: shadowScan_def shadowRadius_def)

lemma densityShadowCleanup_centreHole:
  "densityShadowCleanup darkImage centreHole 25 25 4 = (insert 312 centreHole, 1)"
  by (simp add: densityShadowCleanup_def shadowPasses.simps [of _ _ _ _ 0]
      shadowPasses.simps [of _ _ _ _ "Suc 0"] passes_def
      shadowScan_centreHole shadowScan_filled)

text \<open>
  C4 (as stated). Pixel 311, that is (11, 12), of a 25 by 25 image is not background, its
  brightness 0 is below 160, and 112 of the 113 pixels of its sample are background, more
  than 0.45 of them; the pass does not queue it, because the scan starts at column 12.
\<close>

theorem shadowScan_margin_counterexample:
  "inImage 25 25 311 \<and> 311 \<notin> marginHole \<and> pixelAt darkImage 4 311 = Some (0, 0, 0) \<and>
   (of_int (0 + 0 + 0) :: real) / 3 < brightnessMax \<and>
   backgroundFraction marginHole 25 311 > transparencyThreshold \<and>
   311 \<notin> set (shadowScan darkImage marginHole 25 25 4)"
proof (intro conjI)
  show "inImage 25 25 311" by (simp add: inImage_def)
  show "311 \<notin> marginHole" by (simp add: marginHole_def)
  show "pixelAt darkImage 4 311 = Some (0, 0, 0)" by (simp add: pixelAt_darkImage)
  show "(of_int (0 + 0 + 0) :: real) / 3 < brightnessMax" by (simp add: brightnessMax_def)
  show "backgroundFraction marginHole 25 311 > transparencyThreshold"
    by (simp add: backgroundFraction_marginHole transparencyThreshold_def)
  show "311 \<notin> set (shadowScan darkImage marginHole 25 25 4)"
    by (simp add: shadowScan_marginHole)
qed

text \<open>
  C4 (amended). In each pass of \<open>densityShadowCleanup\<close>, a pixel whose colour bytes lie in
  the buffer is queued exactly when it is at least 12 pixels away from every edge of the
  image (column and row from 12 to width - 13 and height - 13), is not background at the
  start of the pass, has brightness at most 160, and more than 0.45 of the pixels of its
  sparse circular sample (radius 12, every 2nd pixel in each axis, within the circle) are
  background. Pixels nearer to an edge are never queued.
\<close>

theorem shadowScan_queued:
  assumes "pixelAt data channels idx = Some (r, g, b)"
  shows "idx \<in> set (shadowScan data isBackground width height channels) \<longleftrightarrow>
     interior width height idx \<and> idx \<notin> isBackground \<and>
     (of_int (r + g + b) :: real) / 3 \<le> 160 \<and>
     backgroundFraction isBackground width idx > 45 / 100"
  using assms
  by (simp add: shadowScan_iff queuedPixel_def tooBright_def brightnessMax_def
      transparencyThreshold_def not_less)

theorem shadowScan_queued_witness:
  "pixelAt darkImage 4 312 = Some (0, 0, 0) \<and> interior 25 25 312 \<and>
   312 \<in> set (shadowScan darkImage centreHole 25 25 4)"
proof -
  have p: "pixelAt darkImage 4 312 = Some (0, 0, 0)" by (simp add: pixelAt_darkImage)
  have i: "interior 25 25 312" by (simp add: interior_def shadowRadius_def)
  have "312 \<notin> centreHole" by (simp add: centreHole_def)
  with i show ?thesis
    using shadowScan_queued [OF p, of centreHole 25 25] p
    by (simp add: backgroundFraction_centreHole)
qed

text \<open>
  C5. \<open>densityShadowCleanup\<close> commits at most 5 passes. The mask after a pass is the mask
  at the start of the pass together with every pixel that meets the criterion of the pass
  on the mask as it was at the start of the pass (\<open>commitPass\<close>: a set, so the result does not
  depend on the order of the scan); the number returned is the total number of pixels queued;
  every committed pass queued a pixel; and when fewer than 5 passes were committed, the pass
  after the last committed one queued nothing.
\<close>

theorem densityShadowCleanup_passes:
  "\<exists>k\<le>5.
      densityShadowCleanup data isBackground width height channels =
        ((commitPass data width height channels ^^ k) isBackground,
         (\<Sum>j<k. card {idx. queuedPixel data
             ((commitPass data width height channels ^^ j) isBackground)
             width height channels idx})) \<and>
      (\<forall>j<k. \<exists>idx. queuedPixel data ((commitPass data width height channels ^^ j) isBackground)
                 width height channels idx) \<and>
      (k < 5 \<longrightarrow> \<not> (\<exists>idx. queuedPixel data
                 ((commitPass data width height channels ^^ k) isBackground)
                 width height channels idx))"
  using shadowPasses_run [of 0 5 data width height channels isBackground 0]
  by (simp add: densityShadowCleanup_def passes_def)

theorem densityShadowCleanup_passes_witness:
  "densityShadowCleanup darkImage centreHole 25 25 4 = (insert 312 centreHole, 1) \<and>
   (\<exists>k\<le>5.
      (insert 312 centreHole, 1) =
        ((commitPass darkImage 25 25 4 ^^ k) centreHole,
         (\<Sum>j<k. card {idx. queuedPixel darkImage
             ((commitPass darkImage 25 25 4 ^^ j) centreHole) 25 25 4 idx})))"
  using densityShadowCleanup_passes [of darkImage centreHole 25 25 4]
  by (auto simp: densityShadowCleanup_centreHole)

section \<open>Stages 4 and 5: the mask grows, the colours stay\<close>

lemma set_pixelIndices: "set (pixelIndices width height) = {i. inImage width height i}"
proof -
  have "set (pixelIndices width height) = {0..<int (width * height)}"
    unfolding pixelIndices_def set_map set_upt by (rule image_int_atLeastLessThan [of 0, simplified])
  then show ?thesis by (simp add: inImage_def set_eq_iff)
qed

lemma distinct_pixelIndices: "distinct (pixelIndices width height)"
  by (simp add: pixelIndices_def distinct_map)

lemma card_filter_pixels:
  "length (filter P (pixelIndices width height)) = card {i. inImage width height i \<and> P i}"
proof -
  have "distinct (filter P (pixelIndices width height))"
    using distinct_pixelIndices by (rule distinct_filter)
  then have "card (set (filter P (pixelIndices width height))) =
      length (filter P (pixelIndices width height))"
    by (rule distinct_card)
  then show ?thesis unfolding set_filter set_pixelIndices by simp
qed

lemma markOthers_fold:
  "distinct xs \<Longrightarrow>
   fold (\<lambda>i (isBackground, extraRemoved).
             if i \<notin> isBackground \<and> blobId i \<noteq> l
             then (insert i isBackground, extraRemoved + 1)
             else (isBackground, extraRemoved))
       xs (bg, c) =
     (bg \<union> set (filter (\<lambda>i. blobId i \<noteq> l) xs),
      c + length (filter (\<lambda>i. i \<notin> bg \<and> blobId i \<noteq> l) xs))"
proof (induction xs arbitrary: bg c)
  case Nil
  show ?case by simp
next
  case (Cons x xs)
  have same: "filter (\<lambda>i. i \<noteq> x \<and> i \<notin> bg \<and> blobId i \<noteq> l) xs =
      filter (\<lambda>i. i \<notin> bg \<and> blobId i \<noteq> l) xs"
    using Cons.prems by (intro filter_cong) auto
  from Cons.prems have d: "distinct xs" by simp
  show ?case
  proof (cases "x \<notin> bg \<and> blobId x \<noteq> l")
    case True
    then show ?thesis by (simp add: Cons.IH [OF d] same)
  next
    case False
    then show ?thesis by (auto simp: Cons.IH [OF d])
  qed
qed

lemma markOthers_eq:
  "markOthers width height blobId largestBlob isBackground =
     (isBackground \<union> {i. inImage width height i \<and> blobId i \<noteq> int largestBlob},
      card {i. inImage width height i \<and> i \<notin> isBackground \<and> blobId i \<noteq> int largestBlob})"
  unfolding markOthers_def pixelIndices_def [symmetric]
  by (simp add: markOthers_fold [OF distinct_pixelIndices] card_filter_pixels set_pixelIndices)

lemma keepLargestBlob_subset: "isBackground \<subseteq> fst (keepLargestBlob isBackground width height)"
  by (simp add: keepLargestBlob_def markOthers_eq split: prod.splits)

lemma densityShadowCleanup_subset:
  "isBackground \<subseteq> fst (densityShadowCleanup data isBackground width height channels)"
  unfolding densityShadowCleanup_def by (rule shadowPasses_subset)

text \<open>
  C3. The background mask grows monotonically: each stage after the flood fill
  (\<open>densityShadowCleanup\<close>, \<open>keepLargestBlob\<close>, \<open>applyEdgeSmoothing\<close>, as \<open>removeBackground\<close>
  calls them on the shared arrays) leaves every pixel of the mask in the mask.
\<close>

theorem mask_grows:
  "mask s \<subseteq> mask (fst (stageCleanup width height channels s)) \<and>
   mask s \<subseteq> mask (fst (stageBlob width height s)) \<and>
   mask s \<subseteq> mask (fst (stageFeather width height channels s))"
proof (intro conjI)
  obtain m c where e: "densityShadowCleanup (pixels s) (mask s) width height channels = (m, c)"
    by (cases "densityShadowCleanup (pixels s) (mask s) width height channels")
  show "mask s \<subseteq> mask (fst (stageCleanup width height channels s))"
    using densityShadowCleanup_subset [of "mask s" "pixels s" width height channels]
    by (simp add: stageCleanup_def e)
  obtain m' c' where e': "keepLargestBlob (mask s) width height = (m', c')"
    by (cases "keepLargestBlob (mask s) width height")
  show "mask s \<subseteq> mask (fst (stageBlob width height s))"
    using keepLargestBlob_subset [of "mask s" width height]
    by (simp add: stageBlob_def e')
  show "mask s \<subseteq> mask (fst (stageFeather width height channels s))"
    by (simp add: stageFeather_def split: prod.splits)
qed

lemma fold_unchanged: "(\<And>x. x \<in> set xs \<Longrightarrow> f x s = s) \<Longrightarrow> fold f xs s = s"
  by (induction xs) simp_all

lemma labelBlobs_all_background:
  assumes "\<And>i. inImage width height i \<Longrightarrow> i \<in> isBackground"
  shows "labelBlobs width height isBackground = (\<lambda>i. - 1, [], 0)"
  unfolding labelBlobs_def pixelIndices_def [symmetric]
  by (rule fold_unchanged) (simp add: labelStep_def set_pixelIndices assms)

lemma keepLargestBlob_all_background:
  assumes "\<And>i. inImage width height i \<Longrightarrow> i \<in> isBackground"
  shows "keepLargestBlob isBackground width height = (isBackground, 0)"
  by (simp add: keepLargestBlob_def labelBlobs_all_background [OF assms])

lemma applyEdgeSmoothing_fold:
  "applyEdgeSmoothing data isBackground width height channels radius =
     fold (smoothStep isBackground (edgeDistances isBackground width height radius)
             channels radius)
       (pixelIndices width height) (data, 0)"
proof -
  have "smoothStep isBackground edgeDistance channels radius =
      (\<lambda>i (data, removedPixels).
         if i \<in> isBackground then (data[nat (i * int channels + 3) := 0], removedPixels + 1)
         else if edgeDistance i < of_int radius
         then (data[nat (i * int channels + 3) :=
                 word_of_int (featherAlpha (edgeDistance i) radius)], removedPixels)
         else (data, removedPixels))" for edgeDistance
    by (simp add: fun_eq_iff smoothStep_def Let_def)
  then show ?thesis
    by (simp add: applyEdgeSmoothing_def pixelIndices_def Let_def)
qed

lemma smoothStep_eq:
  "smoothStep isBackground edgeDistance channels radius i (data, c) =
     (if i \<in> isBackground \<or> edgeDistance i < of_int radius
      then data[nat (i * int channels + 3) :=
             alphaWritten isBackground edgeDistance radius i (data ! nat (i * int channels + 3))]
      else data,
      if i \<in> isBackground then c + 1 else c)"
  by (simp add: smoothStep_def alphaWritten_def Let_def)

lemma smooth_count:
  "snd (fold (smoothStep isBackground edgeDistance channels radius) xs (data, c)) =
     c + length (filter (\<lambda>i. i \<in> isBackground) xs)"
  by (induction xs arbitrary: data c) (simp_all add: smoothStep_eq)

lemma smooth_length:
  "length (fst (fold (smoothStep isBackground edgeDistance channels radius) xs (data, c))) =
     length data"
  by (induction xs arbitrary: data c) (simp_all add: smoothStep_eq)

lemma smooth_frame:
  "(\<And>i. i \<in> set xs \<Longrightarrow> k \<noteq> nat (i * int channels + 3)) \<Longrightarrow>
   fst (fold (smoothStep isBackground edgeDistance channels radius) xs (data, c)) ! k = data ! k"
proof (induction xs arbitrary: data c)
  case Nil
  show ?case by simp
next
  case (Cons x xs)
  have "k \<noteq> nat (x * int channels + 3)" using Cons.prems by simp
  moreover have "\<And>i. i \<in> set xs \<Longrightarrow> k \<noteq> nat (i * int channels + 3)"
    using Cons.prems by simp
  ultimately show ?case
    by (simp add: smoothStep_eq Cons.IH)
qed

lemma smooth_value:
  assumes "distinct xs" "i \<in> set xs"
    and "\<And>j. j \<in> set xs \<Longrightarrow> j \<noteq> i \<Longrightarrow> nat (j * int channels + 3) \<noteq> nat (i * int channels + 3)"
    and "nat (i * int channels + 3) < length data"
  shows "fst (fold (smoothStep isBackground edgeDistance channels radius) xs (data, c))
           ! nat (i * int channels + 3) =
         alphaWritten isBackground edgeDistance radius i (data ! nat (i * int channels + 3))"
  using assms
proof (induction xs arbitrary: data c)
  case Nil
  then show ?case by simp
next
  case (Cons x xs)
  let ?k = "nat (i * int channels + 3)"
  show ?case
  proof (cases "x = i")
    case True
    with Cons.prems have "\<And>j. j \<in> set xs \<Longrightarrow> ?k \<noteq> nat (j * int channels + 3)"
      by (metis distinct.simps(2) list.set_intros(2))
    then have "fst (fold (smoothStep isBackground edgeDistance channels radius) xs
        (smoothStep isBackground edgeDistance channels radius i (data, c))) ! ?k =
        fst (smoothStep isBackground edgeDistance channels radius i (data, c)) ! ?k"
      by (cases "smoothStep isBackground edgeDistance channels radius i (data, c)")
         (simp add: smooth_frame)
    also have "\<dots> = alphaWritten isBackground edgeDistance radius i (data ! ?k)"
      using Cons.prems(4) by (simp add: smoothStep_eq alphaWritten_def)
    finally show ?thesis using True by simp
  next
    case False
    obtain d1 c1 where s1: "smoothStep isBackground edgeDistance channels radius x (data, c) = (d1, c1)"
      by (cases "smoothStep isBackground edgeDistance channels radius x (data, c)")
    have ne: "nat (x * int channels + 3) \<noteq> ?k" using Cons.prems(3) [of x] False by simp
    have d1: "length d1 = length data" "d1 ! ?k = data ! ?k"
      using s1 ne by (auto simp: smoothStep_eq split: if_splits)
    from Cons.prems False have "distinct xs" "i \<in> set xs" by simp_all
    moreover have "\<And>j. j \<in> set xs \<Longrightarrow> j \<noteq> i \<Longrightarrow> nat (j * int channels + 3) \<noteq> ?k"
      using Cons.prems(3) by simp
    moreover have "?k < length d1" using Cons.prems(4) d1 by simp
    ultimately have "fst (fold (smoothStep isBackground edgeDistance channels radius) xs (d1, c1)) ! ?k =
        alphaWritten isBackground edgeDistance radius i (d1 ! ?k)"
      by (rule Cons.IH)
    then show ?thesis by (simp add: s1 d1)
  qed
qed

lemma alpha_index_inj:
  assumes "1 \<le> channels" "0 \<le> i" "0 \<le> j" "j \<noteq> i"
  shows "nat (j * int channels + 3) \<noteq> nat (i * int channels + 3)"
proof
  assume "nat (j * int channels + 3) = nat (i * int channels + 3)"
  moreover have "0 \<le> j * int channels + 3" "0 \<le> i * int channels + 3" using assms by simp_all
  ultimately have "j * int channels = i * int channels" by linarith
  with assms show False by simp
qed

lemma applyEdgeSmoothing_count:
  "snd (applyEdgeSmoothing data isBackground width height channels radius) =
     card {i. inImage width height i \<and> i \<in> isBackground}"
  by (simp add: applyEdgeSmoothing_fold smooth_count card_filter_pixels)

lemma applyEdgeSmoothing_length:
  "length (fst (applyEdgeSmoothing data isBackground width height channels radius)) = length data"
  by (simp add: applyEdgeSmoothing_fold smooth_length)

lemma applyEdgeSmoothing_frame:
  assumes "\<And>i. inImage width height i \<Longrightarrow> k \<noteq> nat (i * int channels + 3)"
  shows "fst (applyEdgeSmoothing data isBackground width height channels radius) ! k = data ! k"
  unfolding applyEdgeSmoothing_fold
  by (rule smooth_frame) (simp add: set_pixelIndices assms)

lemma applyEdgeSmoothing_alpha:
  assumes "1 \<le> channels" "inImage width height i" "nat (i * int channels + 3) < length data"
  shows "fst (applyEdgeSmoothing data isBackground width height channels radius)
           ! nat (i * int channels + 3) =
         alphaWritten isBackground (edgeDistances isBackground width height radius) radius i
           (data ! nat (i * int channels + 3))"
  unfolding applyEdgeSmoothing_fold
proof (rule smooth_value [OF distinct_pixelIndices])
  show "i \<in> set (pixelIndices width height)" using assms(2) by (simp add: set_pixelIndices)
  show "nat (i * int channels + 3) < length data" by (rule assms(3))
  fix j assume "j \<in> set (pixelIndices width height)" "j \<noteq> i"
  then show "nat (j * int channels + 3) \<noteq> nat (i * int channels + 3)"
    using assms(1,2) by (intro alpha_index_inj) (simp_all add: set_pixelIndices inImage_def)
qed

lemma rgb_index_not_alpha:
  assumes "4 \<le> channels" "0 \<le> i" "0 \<le> c" "c < 3" "0 \<le> j"
  shows "nat (i * int channels + c) \<noteq> nat (j * int channels + 3)"
proof
  assume "nat (i * int channels + c) = nat (j * int channels + 3)"
  moreover have "0 \<le> i * int channels + c" "0 \<le> j * int channels + 3" using assms by simp_all
  ultimately have e: "i * int channels + c = j * int channels + 3" by linarith
  have "(i * int channels + c) mod int channels = c"
    using assms by (intro coord_mod) simp_all
  moreover have "(j * int channels + 3) mod int channels = 3"
    using assms by (intro coord_mod) simp_all
  ultimately show False using e assms(4) by simp
qed

lemma alpha_index_bound:
  assumes "4 \<le> channels" "inImage width height i" "width * height * channels \<le> length data"
  shows "nat (i * int channels + 3) < length (data :: byte list)"
proof -
  from assms(2) have i: "0 \<le> i" "i + 1 \<le> int (width * height)" by (simp_all add: inImage_def)
  then have "(i + 1) * int channels \<le> int (width * height) * int channels"
    by (intro mult_right_mono) simp_all
  then have "i * int channels + int channels \<le> int (width * height * channels)"
    by (simp add: algebra_simps)
  with assms(1,3) have "i * int channels + 3 < int (length data)" by linarith
  moreover have "0 \<le> i * int channels + 3" using i by simp
  ultimately show ?thesis by (simp add: nat_less_iff)
qed

lemma pixelStages_pixels:
  "\<exists>m. pixels (fst (pixelStages width height channels data)) =
         fst (applyEdgeSmoothing data m width height channels 2)"
proof -
  obtain m1 c1 where e1: "densityShadowCleanup data
      (floodFillBackground data width height channels) width height channels = (m1, c1)"
    by (cases "densityShadowCleanup data
      (floodFillBackground data width height channels) width height channels")
  obtain m2 c2 where e2: "keepLargestBlob m1 width height = (m2, c2)"
    by (cases "keepLargestBlob m1 width height")
  obtain d n where e3: "applyEdgeSmoothing data m2 width height channels 2 = (d, n)"
    by (cases "applyEdgeSmoothing data m2 width height channels 2")
  have "pixels (fst (pixelStages width height channels data)) =
      fst (applyEdgeSmoothing data m2 width height channels 2)"
    by (simp add: pixelStages_def stageFlood_def stageCleanup_def stageBlob_def
        stageFeather_def Let_def e1 e2 e3)
  then show ?thesis ..
qed

text \<open>
  C8. No stage of the pixel pipeline writes to a red, green or blue byte of the raster.
  With four or more channels (\<open>ensureAlpha\<close> yields four), the flood fill, the shadow
  cleanup and the blob selection leave the whole raster as it is; \<open>applyEdgeSmoothing\<close>
  keeps its length, changes only bytes at offset 3 of a pixel of the image, and leaves the
  bytes at offsets 0, 1 and 2 of every pixel as they are; so the R, G and B values after
  the four stages are those of the input.
\<close>

theorem rgb_untouched:
  assumes "4 \<le> channels" "0 \<le> i" "0 \<le> c" "c < 3"
  shows "pixels (stageFlood width height channels s) = pixels s \<and>
     pixels (fst (stageCleanup width height channels s)) = pixels s \<and>
     pixels (fst (stageBlob width height s)) = pixels s \<and>
     length (pixels (fst (stageFeather width height channels s))) = length (pixels s) \<and>
     pixels (fst (stageFeather width height channels s)) ! nat (i * int channels + c) =
       pixels s ! nat (i * int channels + c) \<and>
     (pixels (fst (stageFeather width height channels s)) ! k \<noteq> pixels s ! k \<longrightarrow>
        (\<exists>j. inImage width height j \<and> k = nat (j * int channels + 3))) \<and>
     length (pixels (fst (pixelStages width height channels data))) = length data \<and>
     pixels (fst (pixelStages width height channels data)) ! nat (i * int channels + c) =
       data ! nat (i * int channels + c)"
proof -
  have rgb: "fst (applyEdgeSmoothing d m width height channels 2) ! nat (i * int channels + c) =
      d ! nat (i * int channels + c)" for d m
    using assms by (intro applyEdgeSmoothing_frame rgb_index_not_alpha) (simp_all add: inImage_def)
  have alpha: "fst (applyEdgeSmoothing d m width height channels 2) ! k \<noteq> d ! k \<longrightarrow>
      (\<exists>j. inImage width height j \<and> k = nat (j * int channels + 3))" for d m
    using applyEdgeSmoothing_frame [of width height k channels d m 2] by blast
  obtain m where m: "pixels (fst (pixelStages width height channels data)) =
      fst (applyEdgeSmoothing data m width height channels 2)"
    using pixelStages_pixels by blast
  have 1: "pixels (stageFlood width height channels s) = pixels s"
    by (simp add: stageFlood_def)
  have 2: "pixels (fst (stageCleanup width height channels s)) = pixels s"
    by (simp add: stageCleanup_def split: prod.splits)
  have 3: "pixels (fst (stageBlob width height s)) = pixels s"
    by (simp add: stageBlob_def split: prod.splits)
  have f: "pixels (fst (stageFeather width height channels s)) =
      fst (applyEdgeSmoothing (pixels s) (mask s) width height channels 2)"
    by (simp add: stageFeather_def split: prod.splits)
  show ?thesis
    unfolding f m using 1 2 3 rgb alpha by (simp add: applyEdgeSmoothing_length)
qed

theorem rgb_untouched_witness:
  "pixels (fst (pixelStages 3 3 4 enclosedImage)) ! 0 = 112 \<and>
   length (pixels (fst (pixelStages 3 3 4 enclosedImage))) = 36"
  using rgb_untouched [of 4 0 0 3 3 "\<lparr>pixels = enclosedImage, mask = {}\<rparr>" 0 enclosedImage]
  by (simp add: enclosedImage_def)

lemma pixelStages_unfold:
  "pixelStages width height channels data =
     (let flood = floodFillBackground data width height channels;
          r1 = densityShadowCleanup data flood width height channels;
          r2 = keepLargestBlob (fst r1) width height;
          r3 = applyEdgeSmoothing data (fst r2) width height channels 2
      in (\<lparr>pixels = fst r3, mask = fst r2\<rparr>, snd r3, snd r2, snd r1))"
  by (simp add: pixelStages_def stageFlood_def stageCleanup_def stageBlob_def
      stageFeather_def Let_def case_prod_beta)

lemma floodFill_greyImage: "floodFillBackground greyImage 2 2 4 = {0, 1, 2, 3}"
  by (simp add: floodFillBackground_def edgeSeeds_def pushNeighbors_def greyAt_def pixelAt_def
      isGreyPixel_def greyImage_def upt_rec insert_commute)

lemma fold_id_rows: "fold (\<lambda>y. id) ys s = s"
  by (induction ys) simp_all

lemma shadowScan_small: "width < 25 \<Longrightarrow> shadowScan data isBackground width height channels = []"
  by (simp add: shadowScan_def shadowRadius_def fold_id_rows)

lemma densityShadowCleanup_small:
  "width < 25 \<Longrightarrow>
   densityShadowCleanup data isBackground width height channels = (isBackground, 0)"
  by (simp add: densityShadowCleanup_def shadowPasses.simps [of _ _ _ _ 0] shadowScan_small
      passes_def)

lemma card_image_pixels: "card {i. inImage width height i} = width * height"
  using card_filter_pixels [of "\<lambda>i. True" width height] by (simp add: pixelIndices_def)

text \<open>
  C9, as stated: if the background mask covers every pixel, \<open>removeBackground\<close> returns a
  success result rather than failing. It does not when the image library cannot write the
  output file: the pixel stages run to their end, the write throws, and the \<open>catch\<close> branch
  returns the failure result. In the 2 by 2 image of four grey pixels the mask that reaches
  \<open>keepLargestBlob\<close> holds all four pixels, and with a write that fails the result is the
  failure result.
\<close>

theorem all_background_write_fails:
  "mask (fst (stageCleanup 2 2 4 (stageFlood 2 2 4 \<lparr>pixels = greyImage, mask = {}\<rparr>))) =
     {0, 1, 2, 3} \<and>
   removeBackground (Some (greyImage, 2, 2, 4)) (\<lambda>d. False) = Failure"
  by (simp add: removeBackground_def case_prod_beta stageCleanup_def stageFlood_def
      floodFill_greyImage densityShadowCleanup_small)

text \<open>
  C9. If the background mask covers every pixel when \<open>keepLargestBlob\<close> is called, then
  \<open>keepLargestBlob\<close> returns 0 and leaves the mask as it is, \<open>applyEdgeSmoothing\<close> sets the
  alpha byte of every pixel to 0 (for a buffer of at least four channels that holds
  every pixel), and the pixel stages raise no error: \<open>removeBackground\<close> returns a success
  result exactly when the image library writes the output buffer, and the failure result
  otherwise. The success result reports \<open>width * height + shadowCleaned\<close> removed pixels out
  of \<open>width * height\<close>, where \<open>shadowCleaned\<close> is the count returned by stage 3.
\<close>

theorem all_background_outcome:
  assumes "stageCleanup width height channels
             (stageFlood width height channels \<lparr>pixels = data, mask = {}\<rparr>) =
           (s2, shadowCleaned)"
    and "\<forall>i. inImage width height i \<longrightarrow> i \<in> mask s2"
    and "4 \<le> channels" and "width * height * channels \<le> length data"
  shows "stageBlob width height s2 = (s2, 0) \<and>
     (\<forall>i. inImage width height i \<longrightarrow>
        pixels (fst (pixelStages width height channels data)) ! nat (i * int channels + 3) = 0) \<and>
     removeBackground (Some (data, width, height, channels)) encodes =
       (if encodes (pixels (fst (pixelStages width height channels data)))
        then Success (percentRemoved (width * height + shadowCleaned) (width * height))
        else Failure)"
proof -
  let ?r1 = "densityShadowCleanup data (floodFillBackground data width height channels)
      width height channels"
  have m: "mask s2 = fst ?r1" and p: "pixels s2 = data" and sc: "shadowCleaned = snd ?r1"
    using assms(1) by (auto simp add: stageCleanup_def stageFlood_def case_prod_beta)
  have cover: "\<And>i. inImage width height i \<Longrightarrow> i \<in> fst ?r1"
    using assms(2) m by simp
  have k: "keepLargestBlob (fst ?r1) width height = (fst ?r1, 0)"
    by (rule keepLargestBlob_all_background) (rule cover)
  have a: "stageBlob width height s2 = (s2, 0)"
    by (simp add: stageBlob_def m k)
  have b: "pixels (fst (pixelStages width height channels data)) ! nat (i * int channels + 3) = 0"
    if "inImage width height i" for i
  proof -
    have "nat (i * int channels + 3) < length data"
      using assms(3) that assms(4) by (rule alpha_index_bound)
    then show ?thesis
      using assms(3) that cover [OF that]
      by (simp add: pixelStages_unfold Let_def k applyEdgeSmoothing_alpha alphaWritten_def)
  qed
  have "{i. inImage width height i \<and> i \<in> fst ?r1} = {i. inImage width height i}"
    using cover by blast
  then have n: "card {i. inImage width height i \<and> i \<in> fst ?r1} = width * height"
    by (simp only: card_image_pixels)
  have cnt: "snd (pixelStages width height channels data) = (width * height, 0, shadowCleaned)"
    by (simp add: pixelStages_unfold Let_def k applyEdgeSmoothing_count n sc)
  have c: "removeBackground (Some (data, width, height, channels)) encodes =
       (if encodes (pixels (fst (pixelStages width height channels data)))
        then Success (percentRemoved (width * height + shadowCleaned) (width * height))
        else Failure)"
    by (simp add: removeBackground_def case_prod_beta cnt)
  from a b c show ?thesis by blast
qed

theorem all_background_outcome_witness:
  "stageBlob 2 2 \<lparr>pixels = greyImage, mask = {0, 1, 2, 3}\<rparr> =
     (\<lparr>pixels = greyImage, mask = {0, 1, 2, 3}\<rparr>, 0) \<and>
   pixels (fst (pixelStages 2 2 4 greyImage)) ! 15 = 0 \<and>
   removeBackground (Some (greyImage, 2, 2, 4)) (\<lambda>d. True) = Success (Some 100)"
proof -
  have s2: "stageCleanup 2 2 4 (stageFlood 2 2 4 \<lparr>pixels = greyImage, mask = {}\<rparr>) =
      (\<lparr>pixels = greyImage, mask = {0, 1, 2, 3}\<rparr>, 0)"
    by (simp add: stageCleanup_def stageFlood_def floodFill_greyImage densityShadowCleanup_small)
  have cover: "\<forall>i. inImage 2 2 i \<longrightarrow> i \<in> mask \<lparr>pixels = greyImage, mask = {0, 1, 2, 3}\<rparr>"
    by (simp add: inImage_def) presburger
  have len: "2 * 2 * 4 \<le> length greyImage" by (simp add: greyImage_def)
  have im: "inImage 2 2 3" by (simp add: inImage_def)
  from all_background_outcome [OF s2 cover _ len, of "\<lambda>d. True"] im
  show ?thesis by (fastforce simp add: percentRemoved_def)
qed

section \<open>The counts of the pipeline\<close>

lemma finite_image_pixels: "finite {i. inImage width height i}"
  using finite_set [of "pixelIndices width height"] by (simp only: set_pixelIndices)

lemma queuedPixel_inImage:
  assumes "queuedPixel data isBackground width height channels idx"
  shows "inImage width height idx"
proof -
  from assms have i: "shadowRadius \<le> idx mod int width"
      "idx mod int width < int width - shadowRadius"
      "shadowRadius \<le> idx div int width" "idx div int width < int height - shadowRadius"
    by (simp_all add: queuedPixel_def interior_def)
  then have "0 < int width \<and> 0 \<le> idx div int width \<and> idx div int width < int height"
    by (simp add: shadowRadius_def)
  then show ?thesis by (simp only: inImage_iff_coords)
qed

lemma commitPass_iterated:
  "isBackground \<subseteq> (commitPass data width height channels ^^ k) isBackground \<and>
   (commitPass data width height channels ^^ k) isBackground - isBackground
     \<subseteq> {i. inImage width height i} \<and>
   card ((commitPass data width height channels ^^ k) isBackground - isBackground) =
     (\<Sum>j<k. card {idx. queuedPixel data
         ((commitPass data width height channels ^^ j) isBackground)
         width height channels idx})"
proof (induction k)
  case 0
  show ?case by simp
next
  case (Suc k)
  let ?M = "(commitPass data width height channels ^^ k) isBackground"
  let ?Q = "{idx. queuedPixel data ?M width height channels idx}"
  have next_mask: "(commitPass data width height channels ^^ Suc k) isBackground = ?M \<union> ?Q"
    by (simp add: commitPass_def)
  have q_im: "?Q \<subseteq> {i. inImage width height i}"
    using queuedPixel_inImage by blast
  have q_new: "?Q \<inter> ?M = {}" by (auto simp: queuedPixel_def)
  from Suc.IH have sub: "isBackground \<subseteq> ?M" by simp
  have split: "(?M \<union> ?Q) - isBackground = (?M - isBackground) \<union> ?Q"
    using q_new sub by blast
  have disj: "(?M - isBackground) \<inter> ?Q = {}" using q_new by blast
  have fin: "finite (?M - isBackground)" "finite ?Q"
    using Suc.IH q_im finite_image_pixels [of width height]
    by (blast intro: finite_subset)+
  have "card ((?M \<union> ?Q) - isBackground) = card (?M - isBackground) + card ?Q"
    unfolding split using fin disj by (rule card_Un_disjoint)
  moreover have "isBackground \<subseteq> ?M \<union> ?Q" using sub by blast
  moreover have "(?M \<union> ?Q) - isBackground \<subseteq> {i. inImage width height i}"
    unfolding split using Suc.IH q_im by blast
  ultimately show ?case unfolding next_mask using Suc.IH by simp
qed

lemma densityShadowCleanup_card:
  "isBackground \<subseteq> fst (densityShadowCleanup data isBackground width height channels) \<and>
   fst (densityShadowCleanup data isBackground width height channels) - isBackground
     \<subseteq> {i. inImage width height i} \<and>
   card (fst (densityShadowCleanup data isBackground width height channels) - isBackground) =
     snd (densityShadowCleanup data isBackground width height channels)"
proof -
  from shadowPasses_run [where pass = 0 and n = passes and data = data and width = width
      and height = height and channels = channels and isBackground = isBackground
      and totalCleaned = 0]
  obtain k where "densityShadowCleanup data isBackground width height channels =
        ((commitPass data width height channels ^^ k) isBackground,
         (\<Sum>j<k. card {idx. queuedPixel data
             ((commitPass data width height channels ^^ j) isBackground)
             width height channels idx}))"
    by (auto simp: densityShadowCleanup_def)
  then show ?thesis using commitPass_iterated [where isBackground = isBackground and data = data
      and width = width and height = height and channels = channels and k = k]
    by simp
qed

lemma keepLargestBlob_card:
  "isBackground \<subseteq> fst (keepLargestBlob isBackground width height) \<and>
   fst (keepLargestBlob isBackground width height) - isBackground
     \<subseteq> {i. inImage width height i} \<and>
   card (fst (keepLargestBlob isBackground width height) - isBackground) =
     snd (keepLargestBlob isBackground width height)"
proof -
  have "(isBackground \<union> {i. inImage width height i \<and> P i}) - isBackground =
      {i. inImage width height i \<and> i \<notin> isBackground \<and> P i}" for P
    by blast
  then show ?thesis
    by (auto simp: keepLargestBlob_def markOthers_eq split: prod.splits)
qed

lemma card_three_layers:
  assumes "A \<subseteq> B" "B \<subseteq> C" "A \<subseteq> U" "B - A \<subseteq> U" "C - B \<subseteq> U" "finite U"
  shows "card {i \<in> U. i \<in> C} = card A + card (B - A) + card (C - B)"
proof -
  have e: "{i \<in> U. i \<in> C} = A \<union> (B - A) \<union> (C - B)" using assms by blast
  have fin: "finite A" "finite (B - A)" "finite (C - B)"
    using assms by (blast intro: finite_subset)+
  have "card (A \<union> (B - A) \<union> (C - B)) = card (A \<union> (B - A)) + card (C - B)"
    using fin assms by (intro card_Un_disjoint) auto
  also have "card (A \<union> (B - A)) = card A + card (B - A)"
    using fin by (intro card_Un_disjoint) auto
  finally show ?thesis unfolding e .
qed

lemma floodFill_subset_image:
  "floodFillBackground data width height channels \<subseteq> {i. inImage width height i}"
  using floodFill_inImage by blast

lemma pixelStages_counts:
  assumes "pixelStages width height channels data =
             (s4, removedPixels, extraRemoved, shadowCleaned)"
  shows "removedPixels =
     card (floodFillBackground data width height channels) + shadowCleaned + extraRemoved"
proof -
  let ?F = "floodFillBackground data width height channels"
  let ?r1 = "densityShadowCleanup data ?F width height channels"
  let ?r2 = "keepLargestBlob (fst ?r1) width height"
  from assms have r: "removedPixels = card {i. inImage width height i \<and> i \<in> fst ?r2}"
    and e: "extraRemoved = snd ?r2" and s: "shadowCleaned = snd ?r1"
    by (simp_all add: pixelStages_unfold Let_def applyEdgeSmoothing_count)
  have "card {i \<in> {i. inImage width height i}. i \<in> fst ?r2} =
      card ?F + card (fst ?r1 - ?F) + card (fst ?r2 - fst ?r1)"
    using densityShadowCleanup_card [where isBackground = ?F and data = data
        and width = width and height = height and channels = channels]
      keepLargestBlob_card [of "fst ?r1" width height]
      floodFill_subset_image [of data width height channels]
      finite_image_pixels [of width height]
    by (intro card_three_layers) simp_all
  then show ?thesis
    using densityShadowCleanup_card [where isBackground = ?F and data = data
        and width = width and height = height and channels = channels]
      keepLargestBlob_card [of "fst ?r1" width height]
    by (simp add: r e s)
qed

lemma floodFill_stripes: "floodFillBackground stripes 5 1 4 = {1, 3}"
  by (simp add: floodFillBackground_def edgeSeeds_def pushNeighbors_def greyAt_def pixelAt_def
      isGreyPixel_def stripes_def upt_rec insert_commute)

lemma keepLargestBlob_stripes: "keepLargestBlob {1, 3} 5 1 = ({1, 2, 3, 4}, 2)"
  by (simp add: keepLargestBlob_def labelBlobs_def labelStep_def pushNeighbors_def
      largestIndex_def markOthers_def upt_rec insert_commute)

lemma pixelStages_stripes:
  "snd (pixelStages 5 1 4 stripes) = (card {i. inImage 5 1 i \<and> i \<in> {1, 2, 3, 4}}, 2, 0)"
  by (simp add: pixelStages_unfold Let_def floodFill_stripes densityShadowCleanup_small
      keepLargestBlob_stripes applyEdgeSmoothing_count del: One_nat_def)

lemma card_stripes_mask: "card {i. inImage 5 1 i \<and> i \<in> {1, 2, 3, 4}} = 4"
proof -
  have "{i. inImage 5 1 i \<and> i \<in> {1, 2, 3, 4}} = {1, 2, 3, 4}"
    by (auto simp: inImage_def)
  then show ?thesis by simp
qed

lemma removeBackground_stripes:
  "removeBackground (Some (stripes, 5, 1, 4)) (\<lambda>d. True) = Success (Some 120)"
proof -
  obtain s4 where "pixelStages 5 1 4 stripes = (s4, 4, 2, 0)"
    using pixelStages_stripes card_stripes_mask by (cases "pixelStages 5 1 4 stripes") simp
  then show ?thesis by (simp add: removeBackground_def percentRemoved_def)
qed

text \<open>
  C10. The count that \<open>applyEdgeSmoothing\<close> returns is the number of pixels of the image
  that are in the mask it is given. In the pipeline that mask holds the pixels of the flood
  fill and every pixel that the shadow cleanup and the blob selection added, so
  \<open>removedPixels\<close> is the size of the flood fill plus \<open>shadowCleaned\<close> plus \<open>extraRemoved\<close>,
  and the sum \<open>allRemoved\<close> counts the added pixels twice. On the 5 by 1 image of white,
  grey, white, grey, white pixels \<open>removeBackground\<close> reports 120 percent.
\<close>

theorem removed_counted_twice:
  "snd (applyEdgeSmoothing data isBackground width height channels radius) =
     card {i. inImage width height i \<and> i \<in> isBackground} \<and>
   (pixelStages width height channels data = (s4, removedPixels, extraRemoved, shadowCleaned)
      \<longrightarrow> removedPixels =
            card (floodFillBackground data width height channels)
              + shadowCleaned + extraRemoved \<and>
          removedPixels + extraRemoved + shadowCleaned =
            card (floodFillBackground data width height channels)
              + 2 * (shadowCleaned + extraRemoved)) \<and>
   (\<exists>p. removeBackground (Some (stripes, 5, 1, 4)) (\<lambda>d. True) = Success (Some p) \<and>
        p > 100)"
proof (intro conjI impI)
  show "snd (applyEdgeSmoothing data isBackground width height channels radius) =
     card {i. inImage width height i \<and> i \<in> isBackground}"
    by (rule applyEdgeSmoothing_count)
  show "\<exists>p. removeBackground (Some (stripes, 5, 1, 4)) (\<lambda>d. True) = Success (Some p) \<and>
        p > 100"
    by (rule exI [of _ 120]) (simp add: removeBackground_stripes del: One_nat_def)
next
  assume "pixelStages width height channels data =
      (s4, removedPixels, extraRemoved, shadowCleaned)"
  then have r: "removedPixels =
      card (floodFillBackground data width height channels) + shadowCleaned + extraRemoved"
    by (rule pixelStages_counts)
  then show "removedPixels =
      card (floodFillBackground data width height channels) + shadowCleaned + extraRemoved" .
  from r show "removedPixels + extraRemoved + shadowCleaned =
      card (floodFillBackground data width height channels)
        + 2 * (shadowCleaned + extraRemoved)"
    by simp
qed

theorem removed_counted_twice_witness:
  "snd (applyEdgeSmoothing stripes {1, 2, 3, 4} 5 1 4 2) = 4 \<and>
   card (floodFillBackground stripes 5 1 4) = 2 \<and>
   snd (pixelStages 5 1 4 stripes) = (4, 2, 0)"
proof -
  obtain s4 r e c where p: "pixelStages 5 1 4 stripes = (s4, r, e, c)"
    by (cases "pixelStages 5 1 4 stripes")
  with pixelStages_stripes have ec: "e = 2" "c = 0" by simp_all
  have f: "card (floodFillBackground stripes 5 1 4) = 2"
    unfolding floodFill_stripes by simp
  from removed_counted_twice [where data = stripes and isBackground = "{1, 2, 3, 4}"
      and width = 5 and height = 1 and channels = 4 and radius = 2 and ?s4.0 = s4
      and removedPixels = r and extraRemoved = e and shadowCleaned = c] p
  have a: "snd (applyEdgeSmoothing stripes {1, 2, 3, 4} 5 1 4 2) =
      card {i. inImage 5 1 i \<and> i \<in> {1, 2, 3, 4}}"
    and r: "r = card (floodFillBackground stripes 5 1 4) + c + e"
    by simp_all
  show ?thesis unfolding a card_stripes_mask using p ec f r by simp
qed

section \<open>Stage 5: the alpha ramp\<close>

lemma updateAt_apply:
  "updateAt key g k f i = (if i = key k then g k (f (key k)) else f i)"
  by (simp add: updateAt_def)

lemma fold_update_other:
  "i \<notin> key ` set ks \<Longrightarrow> fold (updateAt key g) ks f0 i = f0 i"
proof (induction ks arbitrary: f0)
  case Nil
  show ?case by simp
next
  case (Cons a ks)
  then have n: "i \<notin> key ` set ks" and ne: "i \<noteq> key a" by simp_all
  from n have "fold (updateAt key g) ks (updateAt key g a f0) i = updateAt key g a f0 i"
    by (rule Cons.IH)
  also have "\<dots> = f0 i" using ne by (simp add: updateAt_apply)
  finally show ?case by (simp only: fold.simps comp_apply)
qed

lemma fold_update_at:
  "distinct (map key ks) \<Longrightarrow> k \<in> set ks \<Longrightarrow>
   fold (updateAt key g) ks f0 (key k) = g k (f0 (key k))"
proof (induction ks arbitrary: f0)
  case Nil
  then show ?case by simp
next
  case (Cons a ks)
  show ?case
  proof (cases "k = a")
    case True
    from Cons.prems have "key a \<notin> key ` set ks" by simp
    then have "fold (updateAt key g) ks (updateAt key g a f0) (key a) =
        updateAt key g a f0 (key a)"
      by (rule fold_update_other)
    also have "\<dots> = g a (f0 (key a))" by (simp add: updateAt_apply)
    finally show ?thesis unfolding True by (simp only: fold.simps comp_apply)
  next
    case False
    with Cons.prems have k: "k \<in> set ks" and d: "distinct (map key ks)" by simp_all
    from Cons.prems have "key a \<notin> key ` set ks" by simp
    with k have ne: "key k \<noteq> key a" by (metis imageI)
    have "fold (updateAt key g) ks (updateAt key g a f0) (key k) =
        g k (updateAt key g a f0 (key k))"
      using d k by (rule Cons.IH)
    also have "updateAt key g a f0 (key k) = f0 (key k)"
      using ne by (simp add: updateAt_apply)
    finally show ?thesis by (simp only: fold.simps comp_apply)
  qed
qed

lemma inj_on_rows:
  fixes w :: int
  assumes "\<And>y x. (y, x) \<in> A \<Longrightarrow> 0 \<le> x \<and> x < w"
  shows "inj_on (\<lambda>(y, x). y * w + x) A"
proof (rule inj_onI)
  fix p q assume p: "p \<in> A" and q: "q \<in> A"
    and e: "(case p of (y, x) \<Rightarrow> y * w + x) = (case q of (y, x) \<Rightarrow> y * w + x)"
  obtain y x where pp: "p = (y, x)" by (cases p)
  obtain y' x' where qq: "q = (y', x')" by (cases q)
  have x: "0 \<le> x" "x < w" and x': "0 \<le> x'" "x' < w"
    using p q assms by (simp_all add: pp qq)
  from e have e': "y * w + x = y' * w + x'" by (simp add: pp qq)
  have "y = y'" using coord_div [OF x, of y] coord_div [OF x', of y'] e' by simp
  moreover have "x = x'" using coord_mod [OF x, of y] coord_mod [OF x', of y'] e' by simp
  ultimately show "p = q" by (simp add: pp qq)
qed

lemma distinct_grid:
  "distinct (map (\<lambda>(y, x). y * int width + x)
     (List.product [0..int height - 1] [0..int width - 1]))"
proof -
  have "inj_on (\<lambda>(y, x). y * int width + x)
      (set (List.product [0..int height - 1] [0..int width - 1]))"
    by (rule inj_on_rows) simp
  moreover have "distinct (List.product [0..int height - 1] [0..int width - 1])"
    by (simp add: distinct_product)
  ultimately show ?thesis by (simp only: distinct_map)
qed

lemma edgeDistances_at:
  assumes "inImage width height i"
  shows "edgeDistances isBackground width height radius i =
     (if i \<in> isBackground then 0
      else windowDistance isBackground width height radius
             (i mod int width) (i div int width) 999)"
proof -
  let ?key = "\<lambda>(y, x). y * int width + x"
  let ?g = "\<lambda>(y, x) d. if y * int width + x \<in> isBackground then 0
              else windowDistance isBackground width height radius x y d"
  have body: "(\<lambda>(y, x) edgeDistance.
             let idx = y * int width + x in
             if idx \<in> isBackground then edgeDistance(idx := 0)
             else edgeDistance(idx :=
                    windowDistance isBackground width height radius x y (edgeDistance idx)))
      = updateAt ?key ?g"
    by (simp add: fun_eq_iff Let_def updateAt_def)
  have c: "0 \<le> i mod int width" "i mod int width < int width"
        "0 \<le> i div int width" "i div int width < int height"
    using inImage_coords [OF assms] by simp_all
  then have m: "(i div int width, i mod int width) \<in>
      set (List.product [0..int height - 1] [0..int width - 1])"
    by simp
  show ?thesis
    using fold_update_at [OF distinct_grid m, of ?g "\<lambda>i. 999"]
    by (simp add: edgeDistances_def fold_rows body)
qed

lemma fold_min_filter:
  "fold (\<lambda>k d. if C k then d else if P k then min d (g k) else d) ks (d0 :: real) =
     fold min (map g (filter (\<lambda>k. \<not> C k \<and> P k) ks)) d0"
  by (induction ks arbitrary: d0) (simp_all add: min.commute)

lemma windowDistance_eq:
  "windowDistance isBackground width height radius (i mod int width) (i div int width) d =
     fold min (backgroundDistances isBackground width height radius i) d"
proof -
  let ?C = "\<lambda>(dy, dx). i mod int width + dx < 0 \<or> i mod int width + dx \<ge> int width \<or>
              i div int width + dy < 0 \<or> i div int width + dy \<ge> int height"
  let ?P = "\<lambda>(dy, dx). (i div int width + dy) * int width + (i mod int width + dx) \<in> isBackground"
  let ?g = "\<lambda>(dy, dx). sqrt (of_int (dx * dx + dy * dy))"
  have body: "(\<lambda>(dy, dx) d.
             let nx = i mod int width + dx; ny = i div int width + dy in
             if nx < 0 \<or> nx \<ge> int width \<or> ny < 0 \<or> ny \<ge> int height then d
             else if ny * int width + nx \<in> isBackground
             then min d (sqrt (of_int (dx * dx + dy * dy)))
             else d)
      = (\<lambda>k d. if ?C k then d else if ?P k then min d (?g k) else d)"
    by (simp add: fun_eq_iff Let_def)
  have cond: "(\<lambda>k. \<not> ?C k \<and> ?P k) = (\<lambda>(dy, dx).
            0 \<le> i mod int width + dx \<and> i mod int width + dx < int width \<and>
            0 \<le> i div int width + dy \<and> i div int width + dy < int height \<and>
            (i div int width + dy) * int width + (i mod int width + dx) \<in> isBackground)"
    by (simp add: fun_eq_iff not_less not_le)
  show ?thesis
    unfolding windowDistance_def fold_rows body fold_min_filter cond backgroundDistances_def ..
qed

lemma edgeDistances_Min:
  assumes "inImage width height i" "i \<notin> isBackground"
  shows "edgeDistances isBackground width height radius i =
     Min (set (999 # backgroundDistances isBackground width height radius i))"
  using assms by (simp only: edgeDistances_at windowDistance_eq if_False Min.set_eq_fold)

lemma backgroundDistances_nonneg:
  "d \<in> set (backgroundDistances isBackground width height radius i) \<Longrightarrow> 0 \<le> d"
  by (auto simp: backgroundDistances_def)

lemma edgeDistances_cases:
  assumes "inImage width height i" "i \<notin> isBackground"
  shows "nearestBackground isBackground width height radius i = None \<and>
           edgeDistances isBackground width height radius i = 999 \<or>
         (\<exists>d. nearestBackground isBackground width height radius i = Some d \<and> 0 \<le> d \<and>
              edgeDistances isBackground width height radius i = min 999 d)"
proof (cases "backgroundDistances isBackground width height radius i = []")
  case True
  then show ?thesis
    by (simp add: edgeDistances_Min [OF assms] nearestBackground_def)
next
  case False
  let ?D = "set (backgroundDistances isBackground width height radius i)"
  have ne: "?D \<noteq> {}" using False by simp
  have "Min (insert 999 ?D) = min 999 (Min ?D)"
    using ne by (simp add: Min_insert)
  moreover have "Min ?D \<in> ?D" using ne by (intro Min_in) simp_all
  then have "0 \<le> Min ?D" by (rule backgroundDistances_nonneg)
  ultimately show ?thesis
    using False by (simp add: edgeDistances_Min [OF assms] nearestBackground_def)
qed

lemma featherAlpha_range:
  assumes "0 \<le> d" "0 < radius"
  shows "0 \<le> featherAlpha d radius" "featherAlpha d radius \<le> 255"
proof -
  have "(0::real) \<le> d / of_int radius * 255" using assms by simp
  then have "round (0::real) \<le> round (d / of_int radius * 255)" by (rule round_mono)
  then show "0 \<le> featherAlpha d radius" by (simp add: featherAlpha_def)
  show "featherAlpha d radius \<le> 255" by (simp add: featherAlpha_def)
qed

lemma featherAlpha_mono:
  assumes "d \<le> d'" "0 < radius"
  shows "featherAlpha d radius \<le> featherAlpha d' radius"
proof -
  have "d / of_int radius * 255 \<le> d' / of_int radius * 255"
    using assms by (simp add: divide_right_mono)
  then have "round (d / of_int radius * 255) \<le> round (d' / of_int radius * 255)"
    by (rule round_mono)
  then show ?thesis by (simp add: featherAlpha_def)
qed

lemma byte_of_int_mono:
  assumes "0 \<le> a" "a \<le> b" "b \<le> 255"
  shows "(word_of_int a :: byte) \<le> word_of_int b"
proof -
  have "uint (word_of_int a :: byte) = a" "uint (word_of_int b :: byte) = b"
    using assms by (simp_all add: uint_word_of_int take_bit_int_eq_self)
  then show ?thesis using assms by (simp add: word_le_def)
qed

text \<open>
  C7. After \<open>applyEdgeSmoothing\<close> with a feather radius between 1 and 999 (the pipeline uses
  2), on a buffer of at least four channels that holds every pixel: a background pixel has
  alpha 0; a foreground pixel with no background pixel in its search window, or whose
  least distance to one is at or beyond the radius, keeps the alpha it had; and of two
  foreground pixels whose least distances are below the radius, the one with the smaller
  distance has the lower or equal alpha. The alpha a pixel had is 255 when the decoded
  buffer is opaque.
\<close>

theorem feather_alpha:
  assumes "4 \<le> channels" and "0 < radius" and "radius \<le> 999"
    and "width * height * channels \<le> length data"
    and "inImage width height i" and "inImage width height j"
  shows
   "(i \<in> isBackground \<longrightarrow>
       fst (applyEdgeSmoothing data isBackground width height channels radius)
         ! alphaIndex channels i = 0) \<and>
    (i \<notin> isBackground \<and>
       (nearestBackground isBackground width height radius i = None \<or>
        (\<exists>d. nearestBackground isBackground width height radius i = Some d \<and>
             of_int radius \<le> d)) \<longrightarrow>
       fst (applyEdgeSmoothing data isBackground width height channels radius)
         ! alphaIndex channels i = data ! alphaIndex channels i) \<and>
    (i \<notin> isBackground \<and> j \<notin> isBackground \<and>
       (\<exists>di dj. nearestBackground isBackground width height radius i = Some di \<and>
                nearestBackground isBackground width height radius j = Some dj \<and>
                di < of_int radius \<and> dj < of_int radius \<and> di \<le> dj) \<longrightarrow>
       fst (applyEdgeSmoothing data isBackground width height channels radius)
         ! alphaIndex channels i
       \<le> fst (applyEdgeSmoothing data isBackground width height channels radius)
         ! alphaIndex channels j)"
proof -
  let ?ed = "edgeDistances isBackground width height radius"
  let ?out = "fst (applyEdgeSmoothing data isBackground width height channels radius)"
  have ch: "1 \<le> channels" using assms(1) by simp
  have val: "?out ! alphaIndex channels p =
      alphaWritten isBackground ?ed radius p (data ! alphaIndex channels p)"
    if "inImage width height p" for p
    unfolding alphaIndex_def
    using ch that alpha_index_bound [OF assms(1) that assms(4)]
    by (rule applyEdgeSmoothing_alpha)
  have far: "alphaWritten isBackground ?ed radius p old = old"
    if "inImage width height p" "p \<notin> isBackground"
      "nearestBackground isBackground width height radius p = None \<or>
        (\<exists>d. nearestBackground isBackground width height radius p = Some d \<and>
             of_int radius \<le> d)" for p old
  proof -
    have "\<not> ?ed p < of_int radius"
      using edgeDistances_cases [OF that(1,2), of radius] that(3) assms(3) by auto
    then show ?thesis using that(2) by (simp add: alphaWritten_def)
  qed
  have near: "alphaWritten isBackground ?ed radius p old = word_of_int (featherAlpha d radius)"
    if "inImage width height p" "p \<notin> isBackground"
      "nearestBackground isBackground width height radius p = Some d" "d < of_int radius"
    for p old d
  proof -
    have "?ed p = d"
      using edgeDistances_cases [OF that(1,2), of radius] that(3,4) assms(3) by auto
    then show ?thesis using that(2,4) by (simp add: alphaWritten_def)
  qed
  have nonneg: "0 \<le> d"
    if "inImage width height p" "p \<notin> isBackground"
      "nearestBackground isBackground width height radius p = Some d" for p d
    using edgeDistances_cases [OF that(1,2), of radius] that(3) by auto
  have a: "i \<in> isBackground \<longrightarrow> ?out ! alphaIndex channels i = 0"
    by (simp add: val [OF assms(5)] alphaWritten_def)
  have b: "i \<notin> isBackground \<and>
       (nearestBackground isBackground width height radius i = None \<or>
        (\<exists>d. nearestBackground isBackground width height radius i = Some d \<and>
             of_int radius \<le> d)) \<longrightarrow>
       ?out ! alphaIndex channels i = data ! alphaIndex channels i"
    using far [OF assms(5)] by (simp add: val [OF assms(5)])
  have c: "i \<notin> isBackground \<and> j \<notin> isBackground \<and>
       (\<exists>di dj. nearestBackground isBackground width height radius i = Some di \<and>
                nearestBackground isBackground width height radius j = Some dj \<and>
                di < of_int radius \<and> dj < of_int radius \<and> di \<le> dj) \<longrightarrow>
       ?out ! alphaIndex channels i \<le> ?out ! alphaIndex channels j"
  proof (intro impI, elim conjE exE)
    fix di dj
    assume i: "i \<notin> isBackground" and j: "j \<notin> isBackground"
      and ni: "nearestBackground isBackground width height radius i = Some di"
      and nj: "nearestBackground isBackground width height radius j = Some dj"
      and lt: "di < of_int radius" "dj < of_int radius" and le: "di \<le> dj"
    have "0 \<le> featherAlpha di radius"
      using nonneg [OF assms(5) i ni] assms(2) by (rule featherAlpha_range)
    moreover have "featherAlpha di radius \<le> featherAlpha dj radius"
      using le assms(2) by (rule featherAlpha_mono)
    moreover have "featherAlpha dj radius \<le> 255"
      using nonneg [OF assms(6) j nj] assms(2) by (rule featherAlpha_range)
    ultimately have "(word_of_int (featherAlpha di radius) :: byte)
        \<le> word_of_int (featherAlpha dj radius)"
      by (rule byte_of_int_mono)
    then show "?out ! alphaIndex channels i \<le> ?out ! alphaIndex channels j"
      by (simp add: val [OF assms(5)] val [OF assms(6)]
          near [OF assms(5) i ni lt(1)] near [OF assms(6) j nj lt(2)])
  qed
  from a b c show ?thesis by (intro conjI)
qed

lemma upto_window: "[- 2..2] = [-2, -1, 0, 1, (2::int)]"
  by code_simp

lemma nearest_beside: "nearestBackground {0} 3 2 2 1 = Some 1"
  unfolding nearestBackground_def backgroundDistances_def upto_window by simp

lemma nearest_diagonal: "nearestBackground {0} 3 2 2 4 = Some (sqrt 2)"
  unfolding nearestBackground_def backgroundDistances_def upto_window by simp

lemma nearest_two_away: "nearestBackground {0} 3 2 2 2 = Some 2"
  unfolding nearestBackground_def backgroundDistances_def upto_window by simp

lemma sqrt_2_bounds: "1 \<le> sqrt 2" "sqrt 2 < 2"
  by (simp_all add: real_le_rsqrt real_less_lsqrt)

theorem feather_alpha_witness:
  "fst (applyEdgeSmoothing (replicate 24 255) {0} 3 2 4 2) ! 3 = 0 \<and>
   fst (applyEdgeSmoothing (replicate 24 255) {0} 3 2 4 2) ! 11 = 255 \<and>
   fst (applyEdgeSmoothing (replicate 24 255) {0} 3 2 4 2) ! 7
     \<le> fst (applyEdgeSmoothing (replicate 24 255) {0} 3 2 4 2) ! 19"
proof -
  have len: "3 * 2 * 4 \<le> length (replicate 24 (255 :: byte))" by simp
  have im: "inImage 3 2 0" "inImage 3 2 1" "inImage 3 2 2" "inImage 3 2 4"
    by (simp_all add: inImage_def)
  have a: "fst (applyEdgeSmoothing (replicate 24 255) {0} 3 2 4 2) ! 3 = 0"
    using feather_alpha [OF _ _ _ len im(1) im(1), of 2 "{0}"]
    by (simp add: alphaIndex_def)
  have b: "fst (applyEdgeSmoothing (replicate 24 255) {0} 3 2 4 2) ! 11 = 255"
    using feather_alpha [OF _ _ _ len im(3) im(3), of 2 "{0}"]
    by (simp add: alphaIndex_def nearest_two_away)
  have c: "fst (applyEdgeSmoothing (replicate 24 255) {0} 3 2 4 2) ! 7
      \<le> fst (applyEdgeSmoothing (replicate 24 255) {0} 3 2 4 2) ! 19"
    using feather_alpha [OF _ _ _ len im(2) im(4), of 2 "{0}"] sqrt_2_bounds
    by (simp add: alphaIndex_def nearest_beside nearest_diagonal)
  from a b c show ?thesis by (intro conjI)
qed

section \<open>Stage 4: the largest blob is the one kept\<close>

lemma adjacent4_sym: "adjacent4 width height i j \<Longrightarrow> adjacent4 width height j i"
  by (simp add: adjacent4_def abs_minus_commute)

lemma adjacent4_inImage: "adjacent4 width height i j \<Longrightarrow> inImage width height j"
  by (simp add: adjacent4_def)

lemma sameBlob_foreground:
  "sameBlob isBackground width height i j \<Longrightarrow>
     foreground isBackground width height i \<and> foreground isBackground width height j"
  by (induction rule: sameBlob.induct) (simp_all add: foreground_def adjacent4_def)

lemma sameBlob_trans:
  "sameBlob isBackground width height j k \<Longrightarrow> sameBlob isBackground width height i j \<Longrightarrow>
     sameBlob isBackground width height i k"
  by (induction rule: sameBlob.induct) (auto intro: sameBlob.step)

lemma sameBlob_sym:
  "sameBlob isBackground width height i j \<Longrightarrow> sameBlob isBackground width height j i"
proof (induction rule: sameBlob.induct)
  case (start i)
  then show ?case by (rule sameBlob.start)
next
  case (step i j k)
  from step.hyps have "foreground isBackground width height j"
    using sameBlob_foreground by blast
  then have j: "j \<notin> isBackground" by (simp add: foreground_def)
  from step.hyps have "foreground isBackground width height k"
    by (simp add: foreground_def adjacent4_def)
  then have "sameBlob isBackground width height k k" by (rule sameBlob.start)
  then have "sameBlob isBackground width height k j"
    using adjacent4_sym [OF step.hyps(2)] j by (rule sameBlob.step)
  with step.IH show ?case by (rule sameBlob_trans)
qed

lemma blobOf_eq:
  assumes "j \<in> blobOf isBackground width height i"
  shows "blobOf isBackground width height j = blobOf isBackground width height i"
proof -
  from assms have ij: "sameBlob isBackground width height i j" by (simp add: blobOf_def)
  then have ji: "sameBlob isBackground width height j i" by (rule sameBlob_sym)
  show ?thesis unfolding blobOf_def
    using ij ji by (blast intro: sameBlob_trans)
qed

lemma blobOf_self:
  "foreground isBackground width height i \<Longrightarrow> i \<in> blobOf isBackground width height i"
  by (simp add: blobOf_def sameBlob.start)

lemma blobOf_foreground:
  "j \<in> blobOf isBackground width height i \<Longrightarrow> foreground isBackground width height j"
  using sameBlob_foreground by (simp add: blobOf_def)

lemma blobOf_closed:
  "p \<in> blobOf isBackground width height i \<Longrightarrow> adjacent4 width height p q \<Longrightarrow>
     q \<notin> isBackground \<Longrightarrow> q \<in> blobOf isBackground width height i"
  by (simp add: blobOf_def sameBlob.step)

lemma finite_blobOf: "finite (blobOf isBackground width height i)"
proof (rule finite_subset)
  show "blobOf isBackground width height i \<subseteq> {j. inImage width height j}"
    using blobOf_foreground by (auto simp: foreground_def)
  show "finite {j. inImage width height j}" by (rule finite_image_pixels)
qed

lemma blobOf_least:
  assumes "i0 \<in> M" "M \<subseteq> blobOf isBackground width height i0"
    and "\<And>p q. p \<in> M \<Longrightarrow> adjacent4 width height p q \<Longrightarrow> q \<notin> isBackground \<Longrightarrow> q \<in> M"
  shows "M = blobOf isBackground width height i0"
proof
  show "M \<subseteq> blobOf isBackground width height i0" by (rule assms(2))
  have "sameBlob isBackground width height i j \<Longrightarrow> i = i0 \<Longrightarrow> j \<in> M" for i j
    by (induction rule: sameBlob.induct) (auto intro: assms)
  then show "blobOf isBackground width height i0 \<subseteq> M" by (auto simp: blobOf_def)
qed

lemma blobInv_skip:
  assumes inv: "blobInv isBackground width height currentBlob i0 blobId0 M (idx # queue)
                  blobId blobSize"
    and fg0: "foreground isBackground width height i0"
    and fresh: "\<And>j. j \<in> blobOf isBackground width height i0 \<Longrightarrow> blobId0 j < 0"
    and skip: "idx < 0 \<or> idx \<ge> int (width * height) \<or> idx \<in> isBackground \<or> blobId idx \<ge> 0"
  shows "blobInv isBackground width height currentBlob i0 blobId0 M queue blobId blobSize"
proof -
  have gone: "idx \<in> M" if "idx \<in> blobOf isBackground width height i0"
  proof (rule ccontr)
    assume n: "idx \<notin> M"
    from that have "foreground isBackground width height idx" by (rule blobOf_foreground)
    with skip have "blobId idx \<ge> 0" by (auto simp: foreground_def inImage_def)
    moreover from inv n have "blobId idx = blobId0 idx" by (simp add: blobInv_def)
    ultimately show False using fresh [OF that] by simp
  qed
  have d: "\<forall>p\<in>M. \<forall>q. adjacent4 width height p q \<and> q \<notin> isBackground \<longrightarrow>
        q \<in> M \<or> q \<in> set queue"
  proof (intro ballI allI impI)
    fix p q assume p: "p \<in> M" and a: "adjacent4 width height p q \<and> q \<notin> isBackground"
    with inv have "q \<in> M \<or> q \<in> set (idx # queue)" unfolding blobInv_def by blast
    moreover from inv p have "p \<in> blobOf isBackground width height i0"
      unfolding blobInv_def by blast
    with a have "q \<in> blobOf isBackground width height i0" by (blast intro: blobOf_closed)
    ultimately show "q \<in> M \<or> q \<in> set queue" using gone by auto
  qed
  have f: "i0 \<in> M \<or> i0 \<in> set queue"
  proof -
    from inv have "i0 \<in> M \<or> i0 \<in> set (idx # queue)" by (simp add: blobInv_def)
    moreover have "i0 \<in> blobOf isBackground width height i0" using fg0 by (rule blobOf_self)
    ultimately show ?thesis using gone by auto
  qed
  from inv d f show ?thesis unfolding blobInv_def by simp
qed

lemma blobInv_label:
  assumes inv: "blobInv isBackground width height currentBlob i0 blobId0 M (idx # queue)
                  blobId blobSize"
    and take: "\<not> (idx < 0 \<or> idx \<ge> int (width * height) \<or> idx \<in> isBackground \<or> blobId idx \<ge> 0)"
  shows "blobInv isBackground width height currentBlob i0 blobId0 (insert idx M)
           (rev (pushNeighbors width height idx) @ queue)
           (blobId(idx := int currentBlob)) (blobSize + 1)"
proof -
  from take have im: "inImage width height idx" and nb: "idx \<notin> isBackground"
    and un: "blobId idx < 0"
    by (simp_all add: inImage_def)
  then have fg: "foreground isBackground width height idx" by (simp add: foreground_def)
  from inv have id: "blobId = (\<lambda>j. if j \<in> M then int currentBlob else blobId0 j)"
    by (simp add: blobInv_def)
  have new: "idx \<notin> M" using un by (auto simp: id)
  from inv fg have c: "idx \<in> blobOf isBackground width height i0"
    unfolding blobInv_def by simp
  note nbrs = set_pushNeighbors [OF im]
  have 1: "finite (insert idx M)" using inv by (simp add: blobInv_def)
  have 2: "insert idx M \<subseteq> blobOf isBackground width height i0"
    using inv c by (simp add: blobInv_def)
  have 3: "blobSize + 1 = card (insert idx M)"
    using inv new by (simp add: blobInv_def)
  have 4: "blobId(idx := int currentBlob) =
      (\<lambda>j. if j \<in> insert idx M then int currentBlob else blobId0 j)"
    by (auto simp: id fun_eq_iff)
  have 5: "\<forall>p\<in>insert idx M. \<forall>q. adjacent4 width height p q \<and> q \<notin> isBackground \<longrightarrow>
        q \<in> insert idx M \<or> q \<in> set (rev (pushNeighbors width height idx) @ queue)"
  proof (intro ballI allI impI)
    fix p q assume p: "p \<in> insert idx M" and a: "adjacent4 width height p q \<and> q \<notin> isBackground"
    show "q \<in> insert idx M \<or> q \<in> set (rev (pushNeighbors width height idx) @ queue)"
    proof (cases "p = idx")
      case True
      with a show ?thesis by (simp add: nbrs)
    next
      case False
      with p have "p \<in> M" by simp
      with inv a have "q \<in> M \<or> q \<in> set (idx # queue)" unfolding blobInv_def by blast
      then show ?thesis by auto
    qed
  qed
  have 6: "\<forall>q\<in>set (rev (pushNeighbors width height idx) @ queue).
      foreground isBackground width height q \<longrightarrow> q \<in> blobOf isBackground width height i0"
  proof (intro ballI impI)
    fix q assume q: "q \<in> set (rev (pushNeighbors width height idx) @ queue)"
      and f: "foreground isBackground width height q"
    show "q \<in> blobOf isBackground width height i0"
    proof (cases "q \<in> set queue")
      case True
      with inv f show ?thesis unfolding blobInv_def by simp
    next
      case False
      with q have "adjacent4 width height idx q" by (simp add: nbrs)
      with c f show ?thesis by (auto simp: foreground_def intro: blobOf_closed)
    qed
  qed
  have 7: "i0 \<in> insert idx M \<or> i0 \<in> set (rev (pushNeighbors width height idx) @ queue)"
    using inv by (auto simp: blobInv_def)
  show ?thesis unfolding blobInv_def by (intro conjI 1 2 3 4 5 6 7)
qed

lemma blobInv_done:
  assumes inv: "blobInv isBackground width height currentBlob i0 blobId0 M [] blobId blobSize"
  shows "(blobId, blobSize) =
     (\<lambda>j. if j \<in> blobOf isBackground width height i0 then int currentBlob else blobId0 j,
      card (blobOf isBackground width height i0))"
proof -
  have "M = blobOf isBackground width height i0"
  proof (rule blobOf_least)
    show "i0 \<in> M" using inv by (simp add: blobInv_def)
    show "M \<subseteq> blobOf isBackground width height i0" using inv by (simp add: blobInv_def)
    fix p q assume "p \<in> M" "adjacent4 width height p q" "q \<notin> isBackground"
    with inv show "q \<in> M" unfolding blobInv_def by auto
  qed
  with inv show ?thesis by (simp add: blobInv_def)
qed

lemma blobLoop_inv:
  assumes fg0: "foreground isBackground width height i0"
    and fresh: "\<And>j. j \<in> blobOf isBackground width height i0 \<Longrightarrow> blobId0 j < 0"
  shows "blobInv isBackground width height currentBlob i0 blobId0 M queue blobId blobSize \<Longrightarrow>
     blobLoop width height isBackground currentBlob queue blobId blobSize =
       (\<lambda>j. if j \<in> blobOf isBackground width height i0 then int currentBlob else blobId0 j,
        card (blobOf isBackground width height i0))"
  using fg0 fresh
proof (induction width height isBackground currentBlob queue blobId blobSize arbitrary: M
    rule: blobLoop.induct)
  case (1 width height isBackground currentBlob blobId blobSize)
  then show ?case using blobInv_done by simp
next
  case (2 width height isBackground currentBlob idx queue blobId blobSize)
  show ?case
  proof (cases "idx < 0 \<or> idx \<ge> int (width * height) \<or> idx \<in> isBackground \<or> blobId idx \<ge> 0")
    case True
    have "blobInv isBackground width height currentBlob i0 blobId0 M queue blobId blobSize"
      using "2.prems"(1) "2.prems"(2) "2.prems"(3) True by (rule blobInv_skip)
    from "2.IH"(1) [OF True this "2.prems"(2) "2.prems"(3)]
    have r: "blobLoop width height isBackground currentBlob queue blobId blobSize =
       (\<lambda>j. if j \<in> blobOf isBackground width height i0 then int currentBlob else blobId0 j,
        card (blobOf isBackground width height i0))" .
    have "blobLoop width height isBackground currentBlob (idx # queue) blobId blobSize =
        blobLoop width height isBackground currentBlob queue blobId blobSize"
      using True by (subst blobLoop.simps) simp
    then show ?thesis by (simp only: r)
  next
    case False
    have "blobInv isBackground width height currentBlob i0 blobId0 (insert idx M)
           (rev (pushNeighbors width height idx) @ queue)
           (blobId(idx := int currentBlob)) (blobSize + 1)"
      using "2.prems"(1) False by (rule blobInv_label)
    from "2.IH"(2) [OF False this "2.prems"(2) "2.prems"(3)]
    have r: "blobLoop width height isBackground currentBlob
           (rev (pushNeighbors width height idx) @ queue)
           (blobId(idx := int currentBlob)) (blobSize + 1) =
       (\<lambda>j. if j \<in> blobOf isBackground width height i0 then int currentBlob else blobId0 j,
        card (blobOf isBackground width height i0))" .
    have "blobLoop width height isBackground currentBlob (idx # queue) blobId blobSize =
        blobLoop width height isBackground currentBlob
           (rev (pushNeighbors width height idx) @ queue)
           (blobId(idx := int currentBlob)) (blobSize + 1)"
      using False by (subst blobLoop.simps) (simp only: if_False)
    then show ?thesis by (simp only: r)
  qed
qed

lemma blobLoop_blob:
  assumes fg0: "foreground isBackground width height i0"
    and fresh: "\<And>j. j \<in> blobOf isBackground width height i0 \<Longrightarrow> blobId0 j < 0"
  shows "blobLoop width height isBackground currentBlob [i0] blobId0 0 =
       (\<lambda>j. if j \<in> blobOf isBackground width height i0 then int currentBlob else blobId0 j,
        card (blobOf isBackground width height i0))"
proof (rule blobLoop_inv [OF fg0 fresh])
  show "blobInv isBackground width height currentBlob i0 blobId0 {} [i0] blobId0 0"
    using fg0 by (simp add: blobInv_def blobOf_self)
qed

lemma largestIndex_fold:
  fixes blobSizes :: "nat list"
  assumes "1 \<le> n" "n \<le> length blobSizes"
  defines "l \<equiv> fold (\<lambda>b largestBlob.
                      if blobSizes ! b > blobSizes ! largestBlob then b else largestBlob)
                   [1..<n] 0"
  shows "l < n \<and> (\<forall>c<n. blobSizes ! c \<le> blobSizes ! l) \<and> (\<forall>c<l. blobSizes ! c < blobSizes ! l)"
  using assms(1,2) unfolding l_def
proof (induction n rule: nat_induct_at_least)
  case base
  show ?case by simp
next
  case (Suc n)
  let ?l = "fold (\<lambda>b largestBlob.
                      if blobSizes ! b > blobSizes ! largestBlob then b else largestBlob)
                   [1..<n] 0"
  from Suc have ih: "?l < n" "\<forall>c<n. blobSizes ! c \<le> blobSizes ! ?l"
      "\<forall>c<?l. blobSizes ! c < blobSizes ! ?l"
    by simp_all
  have unfold: "fold (\<lambda>b largestBlob.
                      if blobSizes ! b > blobSizes ! largestBlob then b else largestBlob)
                   [1..<Suc n] 0 = (if blobSizes ! n > blobSizes ! ?l then n else ?l)"
    using Suc.hyps by simp
  show ?case
  proof (cases "blobSizes ! n > blobSizes ! ?l")
    case True
    have "\<forall>c<Suc n. blobSizes ! c \<le> blobSizes ! n"
      using ih(2) True by (auto simp: less_Suc_eq intro: order.trans less_imp_le)
    moreover have "\<forall>c<n. blobSizes ! c < blobSizes ! n"
      using ih(2) True by (auto intro: le_less_trans)
    ultimately show ?thesis unfolding unfold using True by simp
  next
    case False
    have "\<forall>c<Suc n. blobSizes ! c \<le> blobSizes ! ?l"
      using ih(2) False by (auto simp: less_Suc_eq)
    then show ?thesis unfolding unfold using False ih by simp
  qed
qed

lemma largestIndex_first_max:
  assumes "blobSizes \<noteq> []"
  shows "largestIndex blobSizes < length blobSizes \<and>
     (\<forall>c<length blobSizes. blobSizes ! c \<le> blobSizes ! largestIndex blobSizes) \<and>
     (\<forall>c<largestIndex blobSizes. blobSizes ! c < blobSizes ! largestIndex blobSizes)"
proof -
  from assms have "1 \<le> length blobSizes" by (cases blobSizes) simp_all
  then show ?thesis unfolding largestIndex_def by (intro largestIndex_fold) simp_all
qed

lemma labelInv_initial: "labelInv isBackground width height 0 [] (\<lambda>i. - 1, [], 0)"
  by (simp add: labelInv_def foreground_def inImage_def)

lemma labelInv_step:
  assumes inv: "labelInv isBackground width height n seeds (blobId, blobSizes, currentBlob)"
    and n: "n < width * height"
  shows "\<exists>seeds'. labelInv isBackground width height (Suc n) seeds'
           (labelStep width height isBackground (int n) (blobId, blobSizes, currentBlob))"
proof -
  let ?fg = "foreground isBackground width height"
  let ?blob = "blobOf isBackground width height"
  note I = inv [unfolded labelInv_def prod.case]
  from I have cur: "currentBlob = length blobSizes" by (elim conjE)
  from I have len: "length seeds = length blobSizes" by (elim conjE)
  from I have srt: "sorted_wrt (<) seeds" by (elim conjE)
  from I have lab: "blobId j = - 1 \<or> (?fg j \<and> 0 \<le> blobId j \<and> blobId j < int currentBlob)" for j
    by (elim conjE) (erule allE)
  from I have "\<forall>i. ?fg i \<and> i < int n \<longrightarrow> 0 \<le> blobId i" by (elim conjE)
  then have seen: "\<And>i. ?fg i \<Longrightarrow> i < int n \<Longrightarrow> 0 \<le> blobId i" by blast
  from I have "\<forall>c<length seeds.
          ?fg (seeds ! c) \<and> seeds ! c < int n \<and>
          {j. blobId j = int c} = ?blob (seeds ! c) \<and>
          blobSizes ! c = card (?blob (seeds ! c)) \<and>
          (\<forall>j\<in>?blob (seeds ! c). seeds ! c \<le> j)" by (elim conjE)
  then have blobs: "\<And>c. c < length seeds \<Longrightarrow>
          ?fg (seeds ! c) \<and> seeds ! c < int n \<and>
          {j. blobId j = int c} = ?blob (seeds ! c) \<and>
          blobSizes ! c = card (?blob (seeds ! c)) \<and>
          (\<forall>j\<in>?blob (seeds ! c). seeds ! c \<le> j)"
    by blast
  have im: "inImage width height (int n)"
    unfolding inImage_def using n by (simp only: of_nat_less_iff of_nat_0_le_iff simp_thms)
  show ?thesis
  proof (cases "int n \<in> isBackground \<or> blobId (int n) \<ge> 0")
    case True
    have seen': "\<forall>i. ?fg i \<and> i < int (Suc n) \<longrightarrow> 0 \<le> blobId i"
    proof (intro allI impI)
      fix i assume a: "?fg i \<and> i < int (Suc n)"
      show "0 \<le> blobId i"
      proof (cases "i < int n")
        case True
        with a show ?thesis by (simp add: seen)
      next
        case False
        with a have "i = int n" by simp
        with a True show ?thesis by (simp add: foreground_def)
      qed
    qed
    have blobs': "\<forall>c<length seeds.
          ?fg (seeds ! c) \<and> seeds ! c < int (Suc n) \<and>
          {j. blobId j = int c} = ?blob (seeds ! c) \<and>
          blobSizes ! c = card (?blob (seeds ! c)) \<and>
          (\<forall>j\<in>?blob (seeds ! c). seeds ! c \<le> j)"
      using blobs by fastforce
    have "labelInv isBackground width height (Suc n) seeds (blobId, blobSizes, currentBlob)"
      unfolding labelInv_def prod.case
      using cur len srt lab seen' blobs' by (intro conjI allI) simp_all
    moreover have "labelStep width height isBackground (int n) (blobId, blobSizes, currentBlob) =
        (blobId, blobSizes, currentBlob)"
      using True by (simp add: labelStep_def)
    ultimately show ?thesis by auto
  next
    case False
    let ?i0 = "int n"
    let ?C = "?blob ?i0"
    from False im have fg0: "?fg ?i0" and un: "blobId ?i0 < 0"
      by (simp_all add: foreground_def)
    have fresh: "blobId j < 0" if "j \<in> ?C" for j
    proof (rule ccontr)
      assume "\<not> blobId j < 0"
      with lab [of j] have l: "0 \<le> blobId j" "blobId j < int currentBlob" by auto
      define c where "c = nat (blobId j)"
      from l have c: "c < length seeds" "blobId j = int c" by (simp_all add: c_def cur len)
      from blobs [OF c(1)] c(2) have "j \<in> ?blob (seeds ! c)" by auto
      then have "?blob j = ?blob (seeds ! c)" by (rule blobOf_eq)
      moreover from that have "?blob j = ?C" by (rule blobOf_eq)
      moreover have "?i0 \<in> ?C" using fg0 by (rule blobOf_self)
      ultimately have "?i0 \<in> ?blob (seeds ! c)" by simp
      with blobs [OF c(1)] have "blobId ?i0 = int c" by auto
      with un show False by simp
    qed
    let ?blobId' = "\<lambda>j. if j \<in> ?C then int currentBlob else blobId j"
    have loop: "blobLoop width height isBackground currentBlob [?i0] blobId 0 = (?blobId', card ?C)"
      using fg0 fresh by (rule blobLoop_blob)
    have stepped: "labelStep width height isBackground ?i0 (blobId, blobSizes, currentBlob) =
        (?blobId', blobSizes @ [card ?C], currentBlob + 1)"
      using False by (simp add: labelStep_def loop del: blobLoop.simps)
    have 1: "currentBlob + 1 = length (blobSizes @ [card ?C])" by (simp add: cur)
    have 2: "length (seeds @ [?i0]) = length (blobSizes @ [card ?C])" by (simp add: len)
    have below: "x < ?i0" if "x \<in> set seeds" for x
    proof -
      from that obtain c where "c < length seeds" "x = seeds ! c"
        by (auto simp: in_set_conv_nth)
      with blobs [of c] show ?thesis by simp
    qed
    have 3: "sorted_wrt (<) (seeds @ [?i0])"
      using srt below by (simp add: sorted_wrt_append)
    have 4: "\<forall>j. ?blobId' j = - 1 \<or>
        (?fg j \<and> 0 \<le> ?blobId' j \<and> ?blobId' j < int (currentBlob + 1))"
    proof
      fix j
      show "?blobId' j = - 1 \<or>
        (?fg j \<and> 0 \<le> ?blobId' j \<and> ?blobId' j < int (currentBlob + 1))"
      proof (cases "j \<in> ?C")
        case True
        then have "?fg j" by (rule blobOf_foreground)
        with True show ?thesis by simp
      next
        case False
        with lab [of j] show ?thesis by auto
      qed
    qed
    have 5: "\<forall>i. ?fg i \<and> i < int (Suc n) \<longrightarrow> 0 \<le> ?blobId' i"
    proof (intro allI impI)
      fix i assume a: "?fg i \<and> i < int (Suc n)"
      show "0 \<le> ?blobId' i"
      proof (cases "i \<in> ?C")
        case True
        then show ?thesis by simp
      next
        case False
        have "i \<noteq> ?i0" using False blobOf_self [OF fg0] by auto
        with a have "i < int n" by simp
        with a False show ?thesis by (simp add: seen)
      qed
    qed
    have old: "{j. ?blobId' j = int c} = {j. blobId j = int c}" if "c < length seeds" for c
    proof -
      have "c \<noteq> currentBlob" using that by (simp add: cur len)
      moreover have "blobId j \<noteq> int c" if "j \<in> ?C" for j using fresh [OF that] by simp
      ultimately show ?thesis by auto
    qed
    have new: "{j. ?blobId' j = int currentBlob} = ?C"
    proof -
      have "blobId j \<noteq> int currentBlob" for j using lab [of j] by auto
      then show ?thesis by auto
    qed
    have least: "?i0 \<le> j" if "j \<in> ?C" for j
    proof (rule ccontr)
      assume "\<not> ?i0 \<le> j"
      then have "j < int n" by simp
      moreover have "?fg j" using that by (rule blobOf_foreground)
      ultimately have "0 \<le> blobId j" by (simp add: seen)
      with fresh [OF that] show False by simp
    qed
    have 6: "\<forall>c<length (seeds @ [?i0]).
          ?fg ((seeds @ [?i0]) ! c) \<and> (seeds @ [?i0]) ! c < int (Suc n) \<and>
          {j. ?blobId' j = int c} = ?blob ((seeds @ [?i0]) ! c) \<and>
          (blobSizes @ [card ?C]) ! c = card (?blob ((seeds @ [?i0]) ! c)) \<and>
          (\<forall>j\<in>?blob ((seeds @ [?i0]) ! c). (seeds @ [?i0]) ! c \<le> j)"
    proof (intro allI impI)
      fix c assume "c < length (seeds @ [?i0])"
      then consider "c < length seeds" | "c = length seeds" by fastforce
      then show "?fg ((seeds @ [?i0]) ! c) \<and> (seeds @ [?i0]) ! c < int (Suc n) \<and>
          {j. ?blobId' j = int c} = ?blob ((seeds @ [?i0]) ! c) \<and>
          (blobSizes @ [card ?C]) ! c = card (?blob ((seeds @ [?i0]) ! c)) \<and>
          (\<forall>j\<in>?blob ((seeds @ [?i0]) ! c). (seeds @ [?i0]) ! c \<le> j)"
      proof cases
        case 1
        then have "c < length blobSizes" by (simp add: len)
        with 1 blobs [OF 1] old [OF 1] show ?thesis
          by (simp add: nth_append)
      next
        case 2
        then have "c = length blobSizes" "c = currentBlob" by (simp_all add: len cur)
        with 2 fg0 new least show ?thesis
          by (simp add: nth_append)
      qed
    qed
    have "labelInv isBackground width height (Suc n) (seeds @ [?i0])
        (?blobId', blobSizes @ [card ?C], currentBlob + 1)"
      unfolding labelInv_def prod.case by (intro conjI 1 2 3 4 5 6)
    then show ?thesis unfolding stepped by blast
  qed
qed

lemma labelBlobs_prefix:
  "n \<le> width * height \<Longrightarrow>
   \<exists>seeds. labelInv isBackground width height n seeds
     (fold (labelStep width height isBackground) (map int [0..<n]) (\<lambda>i. - 1, [], 0))"
proof (induction n)
  case 0
  show ?case using labelInv_initial by auto
next
  case (Suc n)
  then obtain seeds where inv: "labelInv isBackground width height n seeds
     (fold (labelStep width height isBackground) (map int [0..<n]) (\<lambda>i. - 1, [], 0))"
    by auto
  obtain blobId blobSizes currentBlob where
    st: "fold (labelStep width height isBackground) (map int [0..<n]) (\<lambda>i. - 1, [], 0) =
      (blobId, blobSizes, currentBlob)"
    by (cases "fold (labelStep width height isBackground) (map int [0..<n]) (\<lambda>i. - 1, [], 0)")
  from Suc.prems have "n < width * height" by simp
  with inv [unfolded st] have "\<exists>seeds'. labelInv isBackground width height (Suc n) seeds'
           (labelStep width height isBackground (int n) (blobId, blobSizes, currentBlob))"
    by (rule labelInv_step)
  then show ?case by (simp add: st)
qed

lemma labelBlobs_inv:
  "\<exists>seeds. labelInv isBackground width height (width * height) seeds
     (labelBlobs width height isBackground)"
  unfolding labelBlobs_def by (rule labelBlobs_prefix) simp

text \<open>
  C6. After \<open>keepLargestBlob\<close> on a mask with at least one foreground pixel there is a
  foreground blob (4-connected component of the non-background pixels), that of a pixel
  \<open>k\<close>, such that: the new mask is the old one with every pixel of the image outside that
  blob added, so every pixel of every other blob is background; the pixels of the blob
  remain non-background; the number returned is the number of foreground pixels outside
  the blob; no blob has more pixels than the kept one; and every blob with as many pixels
  starts, in row-major order, at or after the first pixel of the kept one, so among the
  largest blobs the first one that the scan meets is kept.
\<close>

theorem keepLargestBlob_keeps_largest:
  assumes "\<exists>i. foreground isBackground width height i"
  shows "\<exists>k. foreground isBackground width height k \<and>
     fst (keepLargestBlob isBackground width height) =
       isBackground \<union> {i. inImage width height i \<and> i \<notin> blobOf isBackground width height k} \<and>
     fst (keepLargestBlob isBackground width height) \<inter> blobOf isBackground width height k = {} \<and>
     snd (keepLargestBlob isBackground width height) =
       card {i. foreground isBackground width height i \<and>
                i \<notin> blobOf isBackground width height k} \<and>
     (\<forall>j. foreground isBackground width height j \<longrightarrow>
          card (blobOf isBackground width height j) \<le> card (blobOf isBackground width height k)) \<and>
     (\<forall>j. foreground isBackground width height j \<and>
          card (blobOf isBackground width height j) = card (blobOf isBackground width height k)
          \<longrightarrow> Min (blobOf isBackground width height k) \<le> Min (blobOf isBackground width height j))"
proof -
  let ?fg = "foreground isBackground width height"
  let ?blob = "blobOf isBackground width height"
  obtain blobId blobSizes currentBlob where
    st: "labelBlobs width height isBackground = (blobId, blobSizes, currentBlob)"
    by (cases "labelBlobs width height isBackground")
  obtain seeds where inv: "labelInv isBackground width height (width * height) seeds
      (blobId, blobSizes, currentBlob)"
    using labelBlobs_inv [of isBackground width height] unfolding st by blast
  note I = inv [unfolded labelInv_def prod.case]
  from I have cur: "currentBlob = length blobSizes" by (elim conjE)
  from I have len: "length seeds = length blobSizes" by (elim conjE)
  from I have srt: "sorted_wrt (<) seeds" by (elim conjE)
  from I have lab: "blobId j = - 1 \<or> (?fg j \<and> 0 \<le> blobId j \<and> blobId j < int currentBlob)" for j
    by (elim conjE) (erule allE)
  from I have "\<forall>i. ?fg i \<and> i < int (width * height) \<longrightarrow> 0 \<le> blobId i" by (elim conjE)
  then have seen: "0 \<le> blobId i" if "?fg i" for i
    using that by (simp add: foreground_def inImage_def)
  from I have "\<forall>c<length seeds.
          ?fg (seeds ! c) \<and> seeds ! c < int (width * height) \<and>
          {j. blobId j = int c} = ?blob (seeds ! c) \<and>
          blobSizes ! c = card (?blob (seeds ! c)) \<and>
          (\<forall>j\<in>?blob (seeds ! c). seeds ! c \<le> j)" by (elim conjE)
  then have blobs: "\<And>c. c < length seeds \<Longrightarrow>
          ?fg (seeds ! c) \<and>
          {j. blobId j = int c} = ?blob (seeds ! c) \<and>
          blobSizes ! c = card (?blob (seeds ! c)) \<and>
          (\<forall>j\<in>?blob (seeds ! c). seeds ! c \<le> j)"
    by blast
  have label: "\<exists>c<length seeds. blobId j = int c \<and> ?blob j = ?blob (seeds ! c)" if "?fg j" for j
  proof -
    from seen [OF that] lab [of j] have l: "0 \<le> blobId j" "blobId j < int currentBlob" by auto
    define c where "c = nat (blobId j)"
    from l have c: "c < length seeds" "blobId j = int c" by (simp_all add: c_def cur len)
    from blobs [OF c(1)] c(2) have "j \<in> ?blob (seeds ! c)" by auto
    then have "?blob j = ?blob (seeds ! c)" by (rule blobOf_eq)
    with c show ?thesis by blast
  qed
  have first: "Min (?blob (seeds ! c)) = seeds ! c" if "c < length seeds" for c
  proof (rule Min_eqI)
    show "finite (?blob (seeds ! c))" by (rule finite_blobOf)
    show "seeds ! c \<in> ?blob (seeds ! c)" using blobs [OF that] by (simp add: blobOf_self)
    fix y assume "y \<in> ?blob (seeds ! c)"
    with blobs [OF that] show "seeds ! c \<le> y" by blast
  qed
  from assms obtain i where "?fg i" by blast
  from label [OF this] have ne: "blobSizes \<noteq> []" using len by auto
  define l where "l = largestIndex blobSizes"
  from largestIndex_first_max [OF ne] have l: "l < length seeds"
    and mx: "\<And>c. c < length seeds \<Longrightarrow> blobSizes ! c \<le> blobSizes ! l"
    and fst: "\<And>c. c < l \<Longrightarrow> blobSizes ! c < blobSizes ! l"
    by (simp_all add: l_def len)
  define k where "k = seeds ! l"
  have kfg: "?fg k" and kl: "{j. blobId j = int l} = ?blob k"
    and ksize: "blobSizes ! l = card (?blob k)"
    using blobs [OF l] by (simp_all add: k_def)
  have in_k: "blobId j = int l \<longleftrightarrow> j \<in> ?blob k" for j using kl by blast
  have res: "keepLargestBlob isBackground width height =
      (isBackground \<union> {i. inImage width height i \<and> blobId i \<noteq> int l},
       card {i. inImage width height i \<and> i \<notin> isBackground \<and> blobId i \<noteq> int l})"
    using ne by (simp add: keepLargestBlob_def st markOthers_eq l_def)
  have a: "fst (keepLargestBlob isBackground width height) =
       isBackground \<union> {i. inImage width height i \<and> i \<notin> ?blob k}"
    by (simp add: res in_k)
  have b: "fst (keepLargestBlob isBackground width height) \<inter> ?blob k = {}"
    unfolding a using blobOf_foreground [of _ isBackground width height k]
    by (auto simp: foreground_def)
  have c: "snd (keepLargestBlob isBackground width height) =
       card {i. ?fg i \<and> i \<notin> ?blob k}"
    by (simp add: res in_k foreground_def conj_assoc)
  have d: "\<forall>j. ?fg j \<longrightarrow> card (?blob j) \<le> card (?blob k)"
  proof (intro allI impI)
    fix j assume "?fg j"
    from label [OF this] obtain c where c: "c < length seeds" "?blob j = ?blob (seeds ! c)"
      by blast
    with blobs [OF c(1)] mx [OF c(1)] show "card (?blob j) \<le> card (?blob k)"
      by (simp add: ksize)
  qed
  have e: "\<forall>j. ?fg j \<and> card (?blob j) = card (?blob k) \<longrightarrow> Min (?blob k) \<le> Min (?blob j)"
  proof (intro allI impI)
    fix j assume j: "?fg j \<and> card (?blob j) = card (?blob k)"
    from label [of j] j obtain c where c: "c < length seeds" "?blob j = ?blob (seeds ! c)"
      by blast
    with blobs [OF c(1)] j have "blobSizes ! c = blobSizes ! l" by (simp add: ksize)
    with fst [of c] have "l \<le> c" by (cases "c < l") simp_all
    have "seeds ! l \<le> seeds ! c"
    proof (cases "l = c")
      case True
      then show ?thesis by simp
    next
      case False
      with \<open>l \<le> c\<close> have "l < c" by simp
      with srt have "seeds ! l < seeds ! c" using c(1) by (rule sorted_wrt_nth_less)
      then show ?thesis by simp
    qed
    then show "Min (?blob k) \<le> Min (?blob j)"
      by (simp add: c(2) k_def first [OF c(1)] first [OF l])
  qed
  from kfg a b c d e show ?thesis by blast
qed

theorem keepLargestBlob_keeps_largest_witness:
  "foreground {1, 3} 5 1 0 \<and> keepLargestBlob {1, 3} 5 1 = ({1, 2, 3, 4}, 2) \<and>
   (\<exists>k. 0 \<in> blobOf {1, 3} 5 1 k \<and>
        fst (keepLargestBlob {1, 3} 5 1) \<inter> blobOf {1, 3} 5 1 k = {})"
proof -
  have fg: "foreground {1, 3} 5 1 0" by (simp add: foreground_def inImage_def)
  then have "\<exists>i. foreground {1, 3} 5 1 i" ..
  from keepLargestBlob_keeps_largest [OF this] obtain k where
    a: "fst (keepLargestBlob {1, 3} 5 1) =
       {1, 3} \<union> {i. inImage 5 1 i \<and> i \<notin> blobOf {1, 3} 5 1 k}"
    and b: "fst (keepLargestBlob {1, 3} 5 1) \<inter> blobOf {1, 3} 5 1 k = {}"
    by blast
  have "0 \<notin> fst (keepLargestBlob {1, 3} 5 1)" by (simp only: keepLargestBlob_stripes) simp
  moreover have "inImage 5 1 0" by (simp add: inImage_def)
  ultimately have "0 \<in> blobOf {1, 3} 5 1 k" unfolding a by blast
  with fg b keepLargestBlob_stripes show ?thesis by blast
qed

end
